theory Spec2Isabelle
  imports Main
begin

section \<open>The Day capability\<close>

text \<open>
  Modelled from the spec: \<^verbatim>\<open>Day.ts\<close> is not among the sources. The spec describes a Day
  as an ordered, comparable date value with \<^verbatim>\<open>next\<close>/\<^verbatim>\<open>prev\<close> arithmetic. A day is
  the number of whole calendar days from a fixed origin together with the time of day in
  milliseconds. \<^verbatim>\<open>next()\<close> and \<^verbatim>\<open>prev()\<close> move one calendar day and keep the time of day;
  \<^verbatim>\<open>isBefore\<close> and \<^verbatim>\<open>isSameOrAfter\<close> compare the instants; \<^verbatim>\<open>sameDay\<close> compares the
  calendar day only.
\<close>

record Day =
  dayNumber :: int
  millis :: int

definition MILLIS_IN_DAY :: int where
  "MILLIS_IN_DAY = 86400000"

definition day_time :: "'a Day_scheme \<Rightarrow> int" where
  "day_time d = dayNumber d * MILLIS_IN_DAY + millis d"

definition next_day :: "Day \<Rightarrow> Day" where
  "next_day d = d\<lparr>dayNumber := dayNumber d + 1\<rparr>"

definition prev_day :: "Day \<Rightarrow> Day" where
  "prev_day d = d\<lparr>dayNumber := dayNumber d - 1\<rparr>"

definition relativeDays :: "Day \<Rightarrow> int \<Rightarrow> Day" where
  "relativeDays d n = d\<lparr>dayNumber := dayNumber d + n\<rparr>"

definition isBefore :: "'a Day_scheme \<Rightarrow> 'b Day_scheme \<Rightarrow> bool" where
  "isBefore a b = (day_time a < day_time b)"

definition isSameOrAfter :: "'a Day_scheme \<Rightarrow> 'b Day_scheme \<Rightarrow> bool" where
  "isSameOrAfter a b = (day_time b \<le> day_time a)"

definition sameDay :: "'a Day_scheme \<Rightarrow> 'b Day_scheme \<Rightarrow> bool" where
  "sameDay a b = (dayNumber a = dayNumber b)"

text \<open>
  The component accessors of a Day (\<^verbatim>\<open>day.dayOfWeek\<close>, \<^verbatim>\<open>day.dayIdentifier\<close>, ...) are
  computed by the absent \<^verbatim>\<open>Day.ts\<close>; they are taken as parameters, one function for each
  field that \<^verbatim>\<open>Schedule.ts\<close> reads.
\<close>

record DayFields =
  dayIdentifier :: "Day \<Rightarrow> int"
  day_dayOfWeek :: "Day \<Rightarrow> int"
  day_dayOfMonth :: "Day \<Rightarrow> int"
  day_dayOfYear :: "Day \<Rightarrow> int"
  day_year :: "Day \<Rightarrow> int"
  day_month :: "Day \<Rightarrow> int"
  day_week :: "Day \<Rightarrow> int"
  day_weekOfYear :: "Day \<Rightarrow> int"
  day_weekspanOfYear :: "Day \<Rightarrow> int"
  day_fullWeekOfYear :: "Day \<Rightarrow> int"
  day_weekOfMonth :: "Day \<Rightarrow> int"
  day_weekspanOfMonth :: "Day \<Rightarrow> int"
  day_fullWeekOfMonth :: "Day \<Rightarrow> int"

section \<open>Frequency checks\<close>

datatype FrequencyValue = Always | Every int int | OneOf "int list"

type_synonym FrequencyCheck = "int \<Rightarrow> bool"

text \<open>
  Modelled from the spec: the compiler from a FrequencyValue to its predicate
  (\<^verbatim>\<open>Parse.frequency\<close>) is not among the sources. \<^verbatim>\<open>Always\<close> matches any value,
  \<^verbatim>\<open>Every{every, offset}\<close> matches v iff \<^verbatim>\<open>(v - offset) mod every == 0\<close>, \<^verbatim>\<open>OneOf\<close>
  matches v iff v appears in the values.
\<close>

fun frequencyCheck :: "FrequencyValue \<Rightarrow> FrequencyCheck" where
  "frequencyCheck Always = (\<lambda>v. True)"
| "frequencyCheck (Every every offset) = (\<lambda>v. (v - offset) mod every = 0)"
| "frequencyCheck (OneOf values) = (\<lambda>v. v \<in> set values)"

section \<open>Schedule\<close>

text \<open>
  Modelled from the spec: \<^verbatim>\<open>Time.ts\<close> is not among the sources. The spec describes a
  time-of-day value with a conversion to milliseconds; a \<^verbatim>\<open>Time\<close> is that number of
  milliseconds since midnight.
\<close>

type_synonym Time = int

type_synonym ScheduleExclusions = "int \<rightharpoonup> bool"

text \<open>
  The fields of \<^verbatim>\<open>class Schedule\<close>, in the order of the source. \<^verbatim>\<open>start\<close> and \<^verbatim>\<open>end\<close> are
  \<^verbatim>\<open>null\<close> when absent. \<^verbatim>\<open>exclude\<close> is an object keyed by day identifiers.
  \<^verbatim>\<open>durationInDays\<close> is only ever assigned \<^verbatim>\<open>Math.max(0, Math.ceil(...))\<close>, a natural number.
  A \<^verbatim>\<open>FrequencyCheck\<close> is used as the predicate it is called as.
\<close>

record Schedule =
  start :: "Day option"
  end_s :: "Day option"
  duration :: int
  durationUnit :: string
  times_s :: "Time list"
  durationInDays :: nat
  exclude :: ScheduleExclusions
  dayOfWeek :: FrequencyCheck
  dayOfMonth :: FrequencyCheck
  dayOfYear :: FrequencyCheck
  month :: FrequencyCheck
  week :: FrequencyCheck
  weekOfYear :: FrequencyCheck
  weekspanOfYear :: FrequencyCheck
  fullWeekOfYear :: FrequencyCheck
  weekOfMonth :: FrequencyCheck
  weekspanOfMonth :: FrequencyCheck
  fullWeekOfMonth :: FrequencyCheck
  year :: FrequencyCheck

text \<open>JavaScript truthiness of \<^verbatim>\<open>this.exclude[id]\<close>: a missing key is \<^verbatim>\<open>undefined\<close>.\<close>

definition truthy :: "bool option \<Rightarrow> bool" where
  "truthy v = (case v of None \<Rightarrow> False | Some b \<Rightarrow> b)"

definition matchesSpan :: "Schedule \<Rightarrow> Day \<Rightarrow> bool" where
  "matchesSpan s day =
     ((case start s of None \<Rightarrow> True | Some a \<Rightarrow> isSameOrAfter day a) \<and>
      (case end_s s of None \<Rightarrow> True | Some b \<Rightarrow> isBefore day b))"

definition isExcluded :: "DayFields \<Rightarrow> Schedule \<Rightarrow> Day \<Rightarrow> bool" where
  "isExcluded F s day = (\<not> \<not> truthy (exclude s (dayIdentifier F day)))"

definition isIncluded :: "DayFields \<Rightarrow> Schedule \<Rightarrow> Day \<Rightarrow> bool" where
  "isIncluded F s day = (\<not> truthy (exclude s (dayIdentifier F day)))"

definition matchesDay :: "DayFields \<Rightarrow> Schedule \<Rightarrow> Day \<Rightarrow> bool" where
  "matchesDay F s day =
     (isIncluded F s day \<and>
      matchesSpan s day \<and>
      dayOfWeek s (day_dayOfWeek F day) \<and>
      dayOfMonth s (day_dayOfMonth F day) \<and>
      dayOfYear s (day_dayOfYear F day) \<and>
      year s (day_year F day) \<and>
      month s (day_month F day) \<and>
      week s (day_week F day) \<and>
      weekOfYear s (day_weekOfYear F day) \<and>
      weekspanOfYear s (day_weekspanOfYear F day) \<and>
      fullWeekOfYear s (day_fullWeekOfYear F day) \<and>
      weekOfMonth s (day_weekOfMonth F day) \<and>
      weekspanOfMonth s (day_weekspanOfMonth F day) \<and>
      fullWeekOfMonth s (day_fullWeekOfMonth F day))"

text \<open>
  \<^verbatim>\<open>findStartingDay\<close>: the loop \<^verbatim>\<open>while (behind >= 0)\<close> tests the day, steps to the previous
  day and decrements \<^verbatim>\<open>behind\<close>, which starts at \<^verbatim>\<open>durationInDays\<close>.
\<close>

function findStartingDay_loop :: "DayFields \<Rightarrow> Schedule \<Rightarrow> Day \<Rightarrow> int \<Rightarrow> Day option" where
  "findStartingDay_loop F s day behind =
     (if behind \<ge> 0
      then (if matchesDay F s day then Some day
            else findStartingDay_loop F s (prev_day day) (behind - 1))
      else None)"
  by pat_completeness auto
termination
  by (relation "measure (\<lambda>(F, s, day, behind). nat (behind + 1))") auto

declare findStartingDay_loop.simps [simp del]

definition findStartingDay :: "DayFields \<Rightarrow> Schedule \<Rightarrow> Day \<Rightarrow> Day option" where
  "findStartingDay F s day = findStartingDay_loop F s day (int (durationInDays s))"

definition coversDay :: "DayFields \<Rightarrow> Schedule \<Rightarrow> Day \<Rightarrow> bool" where
  "coversDay F s day = (findStartingDay F s day \<noteq> None)"

text \<open>
  \<^verbatim>\<open>iterateDays\<close>. A \<^verbatim>\<open>DayIterator\<close> callback is a function of the day and of the state it
  closes over; the boolean of its result is \<^verbatim>\<open>False\<close> exactly when the callback returns the
  literal \<^verbatim>\<open>false\<close>, the only value that \<^verbatim>\<open>onDay( day ) === false\<close> accepts.

  The source returns \<^verbatim>\<open>this\<close>; the outcome records what the walk did: the days it
  tested, in order, the days it handed to the callback, the callback's final state, and
  which of the three exits of the loop was taken (the \<^verbatim>\<open>break\<close> after the callback, the
  \<^verbatim>\<open>break\<close> after \<^verbatim>\<open>++iterated >= max\<close>, or the loop condition \<^verbatim>\<open>days < lookup\<close>).
  The parameters \<^verbatim>\<open>max\<close> (here \<^verbatim>\<open>max_n\<close>) and \<^verbatim>\<open>lookup\<close> are counts, hence natural
  numbers.
\<close>

type_synonym 'st DayIterator = "Day \<Rightarrow> 'st \<Rightarrow> bool \<times> 'st"

datatype StopCause = CallbackStop | MaxReached | LookupExhausted

record 'st IterateOutcome =
  visitedDays :: "Day list"
  emittedDays :: "Day list"
  finalState :: 'st
  stoppedBy :: StopCause

definition visit :: "Day \<Rightarrow> 'st IterateOutcome \<Rightarrow> 'st IterateOutcome" where
  "visit d r = r\<lparr>visitedDays := d # visitedDays r\<rparr>"

definition emit :: "Day \<Rightarrow> 'st IterateOutcome \<Rightarrow> 'st IterateOutcome" where
  "emit d r = r\<lparr>visitedDays := d # visitedDays r, emittedDays := d # emittedDays r\<rparr>"

function iterateDays_loop ::
  "DayFields \<Rightarrow> Schedule \<Rightarrow> nat \<Rightarrow> bool \<Rightarrow> 'st DayIterator \<Rightarrow> bool \<Rightarrow> nat \<Rightarrow>
   nat \<Rightarrow> Day \<Rightarrow> nat \<Rightarrow> 'st \<Rightarrow> 'st IterateOutcome" where
  "iterateDays_loop F s max_n next onDay includeDay lookup days day iterated st =
     (if days < lookup
      then
        (let day' = (if \<not> includeDay \<or> days > 0
                     then (if next then next_day day else prev_day day)
                     else day)
         in if matchesDay F s day'
            then
              (case onDay day' st of (res, st') \<Rightarrow>
                 if res = False
                 then \<lparr>visitedDays = [day'], emittedDays = [day'], finalState = st',
                        stoppedBy = CallbackStop\<rparr>
                 else if iterated + 1 \<ge> max_n
                 then \<lparr>visitedDays = [day'], emittedDays = [day'], finalState = st',
                        stoppedBy = MaxReached\<rparr>
                 else emit day'
                        (iterateDays_loop F s max_n next onDay includeDay lookup
                           (days + 1) day' (iterated + 1) st'))
            else visit day'
                   (iterateDays_loop F s max_n next onDay includeDay lookup
                      (days + 1) day' iterated st))
      else \<lparr>visitedDays = [], emittedDays = [], finalState = st,
             stoppedBy = LookupExhausted\<rparr>)"
  by pat_completeness auto
termination
  by (relation "measure (\<lambda>(F, s, max_n, next, onDay, includeDay, lookup, days, day, iterated, st).
                           lookup - days)") auto

declare iterateDays_loop.simps [simp del]

text \<open>The day that the loop body tests in the pass numbered \<^verbatim>\<open>days\<close>.\<close>

definition stepped :: "bool \<Rightarrow> bool \<Rightarrow> nat \<Rightarrow> Day \<Rightarrow> Day" where
  "stepped next includeDay days day =
     (if \<not> includeDay \<or> days > 0 then (if next then next_day day else prev_day day) else day)"

definition iterateDays ::
  "DayFields \<Rightarrow> Schedule \<Rightarrow> Day \<Rightarrow> nat \<Rightarrow> bool \<Rightarrow> 'st DayIterator \<Rightarrow> bool \<Rightarrow> nat \<Rightarrow>
   'st \<Rightarrow> 'st IterateOutcome" where
  "iterateDays F s day max_n next onDay includeDay lookup st =
     iterateDays_loop F s max_n next onDay includeDay lookup 0 day 0 st"

text \<open>\<^verbatim>\<open>nextDay\<close>: the callback stores the day in \<^verbatim>\<open>next\<close> and returns \<^verbatim>\<open>false\<close>.\<close>

definition setNext :: "(Day option) DayIterator" where
  "setNext d next = (False, Some d)"

definition nextDay :: "DayFields \<Rightarrow> Schedule \<Rightarrow> Day \<Rightarrow> bool \<Rightarrow> nat \<Rightarrow> Day option" where
  "nextDay F s day includeDay lookAhead =
     finalState (iterateDays F s day 1 True setNext includeDay lookAhead None)"

definition prevDay :: "DayFields \<Rightarrow> Schedule \<Rightarrow> Day \<Rightarrow> bool \<Rightarrow> nat \<Rightarrow> Day option" where
  "prevDay F s day includeDay lookBack =
     finalState (iterateDays F s day 1 False setNext includeDay lookBack None)"

text \<open>
  \<^verbatim>\<open>nextDays\<close>: the callback is \<^verbatim>\<open>d => nexts.push(d)\<close>, which returns the new length,
  never \<^verbatim>\<open>false\<close>.
\<close>

definition pushDay :: "(Day list) DayIterator" where
  "pushDay d nexts = (True, nexts @ [d])"

definition nextDays :: "DayFields \<Rightarrow> Schedule \<Rightarrow> Day \<Rightarrow> nat \<Rightarrow> bool \<Rightarrow> nat \<Rightarrow> Day list" where
  "nextDays F s day max_n includeDay lookAhead =
     finalState (iterateDays F s day max_n True pushDay includeDay lookAhead [])"

definition prevDays :: "DayFields \<Rightarrow> Schedule \<Rightarrow> Day \<Rightarrow> nat \<Rightarrow> bool \<Rightarrow> nat \<Rightarrow> Day list" where
  "prevDays F s day max_n includeDay lookBack =
     finalState (iterateDays F s day max_n False pushDay includeDay lookBack [])"

section \<open>Collaborators outside the sources\<close>

text \<open>
  Modelled from the spec: \<^verbatim>\<open>DaySpan.ts\<close> is not among the sources. A span has a start
  and an end.
\<close>

record DaySpan =
  span_start :: Day
  span_end :: Day

text \<open>
  Modelled from the spec: \<^verbatim>\<open>Units.ts\<close> is not among the sources; the spec names the
  navigation granularities day, week, month and year. The calendar only stores the value.
\<close>

datatype Units = DAY | WEEK | MONTH | YEAR

text \<open>
  The remaining operations of \<^verbatim>\<open>Day\<close>, \<^verbatim>\<open>DaySpan\<close> and \<^verbatim>\<open>Constants\<close> that the two
  source files call are absent as well. They are taken as parameters, so every result
  below holds for any implementation of them: \<^verbatim>\<open>dayFields\<close> are the component accessors
  of a Day, \<^verbatim>\<open>day_start\<close> is \<^verbatim>\<open>day.start()\<close>, \<^verbatim>\<open>day_add\<close> is \<^verbatim>\<open>day.add(amount, unit)\<close>,
  \<^verbatim>\<open>relative\<close> is \<^verbatim>\<open>day.relative(millis)\<close>, \<^verbatim>\<open>daysBetween\<close> is
  \<^verbatim>\<open>day.daysBetween(other, Op.DOWN, false)\<close>, \<^verbatim>\<open>span_days\<close> is \<^verbatim>\<open>span.days(Op.UP)\<close>
  (a count of days, hence a natural number), and the \<^verbatim>\<open>span_\<close> predicates are the
  methods of \<^verbatim>\<open>DaySpan\<close> of the same name.
\<close>

record DayLib =
  dayFields :: DayFields
  MAX_EVENTS_PER_DAY :: nat
  day_start :: "Day \<Rightarrow> Day"
  day_add :: "Day \<Rightarrow> int \<Rightarrow> string \<Rightarrow> Day"
  withTime :: "Day \<Rightarrow> Time \<Rightarrow> Day"
  relative :: "Day \<Rightarrow> int \<Rightarrow> Day"
  startOfWeek :: "Day \<Rightarrow> Day"
  endOfWeek :: "Day \<Rightarrow> Day"
  sameWeek :: "Day \<Rightarrow> Day \<Rightarrow> bool"
  sameMonth :: "Day \<Rightarrow> Day \<Rightarrow> bool"
  sameYear :: "Day \<Rightarrow> Day \<Rightarrow> bool"
  daysBetween :: "Day \<Rightarrow> Day \<Rightarrow> int"
  span_days :: "DaySpan \<Rightarrow> nat"
  span_contains :: "DaySpan \<Rightarrow> Day \<Rightarrow> bool"
  span_isPoint :: "DaySpan \<Rightarrow> bool"
  span_matchesDay :: "DaySpan \<Rightarrow> Day \<Rightarrow> bool"
  span_matchesWeek :: "DaySpan \<Rightarrow> Day \<Rightarrow> bool"
  span_matchesMonth :: "DaySpan \<Rightarrow> Day \<Rightarrow> bool"
  span_matchesYear :: "DaySpan \<Rightarrow> Day \<Rightarrow> bool"

section \<open>Span generation of a Schedule\<close>

definition isFullDay :: "Schedule \<Rightarrow> bool" where
  "isFullDay s = (length (times_s s) = 0)"

definition getFullSpan :: "DayLib \<Rightarrow> Schedule \<Rightarrow> Day \<Rightarrow> DaySpan" where
  "getFullSpan lib s day =
     (let start_d = day_start lib day;
          end_d = day_add lib start_d (duration s) (durationUnit s)
      in \<lparr>span_start = start_d, span_end = end_d\<rparr>)"

definition getTimeSpan :: "DayLib \<Rightarrow> Schedule \<Rightarrow> Day \<Rightarrow> Time \<Rightarrow> DaySpan" where
  "getTimeSpan lib s day time =
     (let start_d = withTime lib day time;
          end_d = day_add lib start_d (duration s) (durationUnit s)
      in \<lparr>span_start = start_d, span_end = end_d\<rparr>)"

definition getSpansOver :: "DayLib \<Rightarrow> Schedule \<Rightarrow> Day \<Rightarrow> DaySpan list" where
  "getSpansOver lib s day =
     (case findStartingDay (dayFields lib) s day of
        None \<Rightarrow> []
      | Some start_d \<Rightarrow>
          if isFullDay s then [getFullSpan lib s start_d]
          else filter (\<lambda>span. span_matchesDay lib span start_d)
                 (map (getTimeSpan lib s start_d) (times_s s)))"

definition getSpanOver :: "DayLib \<Rightarrow> Schedule \<Rightarrow> Day \<Rightarrow> DaySpan option" where
  "getSpanOver lib s day =
     (case findStartingDay (dayFields lib) s day of
        None \<Rightarrow> None
      | Some start_d \<Rightarrow> Some (getFullSpan lib s start_d))"

definition getSpansOn :: "DayLib \<Rightarrow> Schedule \<Rightarrow> Day \<Rightarrow> bool \<Rightarrow> DaySpan list" where
  "getSpansOn lib s day check =
     (if check \<and> \<not> matchesDay (dayFields lib) s day then []
      else if isFullDay s then [getFullSpan lib s day]
      else map (getTimeSpan lib s day) (times_s s))"

section \<open>CalendarEvent, CalendarDay, Calendar\<close>

text \<open>
  The type \<^typ>\<open>'v\<close> stands for the JavaScript values that \<^verbatim>\<open>===\<close> compares: payloads and
  object references. A registration keeps the identity of the pair object (\<^verbatim>\<open>self\<close>), the
  identity of its Schedule object (\<^verbatim>\<open>schedule_id\<close>), the fields of that Schedule, and the
  payload \<^verbatim>\<open>event\<close>.
\<close>

record 'v CalendarSchedule =
  self :: 'v
  schedule_id :: 'v
  schedule :: Schedule
  event :: 'v

record 'v CalendarEvent =
  id_e :: nat
  event_e :: 'v
  schedule_e :: Schedule
  time_e :: DaySpan
  fullDay :: bool
  starting :: bool
  ending :: bool
  row :: nat
  col :: nat

definition newCalendarEvent ::
  "DayLib \<Rightarrow> nat \<Rightarrow> 'v \<Rightarrow> Schedule \<Rightarrow> DaySpan \<Rightarrow> Day \<Rightarrow> 'v CalendarEvent" where
  "newCalendarEvent lib i ev s time actualDay =
     \<lparr>id_e = i, event_e = ev, schedule_e = s, time_e = time,
      fullDay = isFullDay s,
      starting = (span_isPoint lib time \<or> sameDay (span_start time) actualDay),
      ending = (span_isPoint lib time \<or> sameDay (relative lib (span_end time) (- 1)) actualDay),
      row = 0, col = 0\<rparr>"

definition scheduleId :: "DayLib \<Rightarrow> 'v CalendarEvent \<Rightarrow> nat" where
  "scheduleId lib e = id_e e div MAX_EVENTS_PER_DAY lib"

text \<open>
  \<^verbatim>\<open>class CalendarDay<T> extends Day\<close>. A cell is a mutable object that the calendar and
  its observers share by reference: \<^verbatim>\<open>oid\<close> is the identity of the object, given by
  \<^verbatim>\<open>new CalendarDay\<close> from the calendar's allocation counter and kept by every in-place
  update. Two cells are the same object iff their \<^verbatim>\<open>oid\<close> is the same.
\<close>

record 'v CalendarDay = Day +
  oid :: nat
  currentDay :: bool
  currentWeek :: bool
  currentMonth :: bool
  currentYear :: bool
  currentOffset :: int
  selectedDay :: bool
  selectedWeek :: bool
  selectedMonth :: bool
  selectedYear :: bool
  inCalendar :: bool
  events :: "'v CalendarEvent list"

definition asDay :: "'a Day_scheme \<Rightarrow> Day" where
  "asDay d = \<lparr>dayNumber = dayNumber d, millis = millis d\<rparr>"

definition newCalendarDay :: "nat \<Rightarrow> Day \<Rightarrow> 'v CalendarDay" where
  "newCalendarDay n d =
     \<lparr>dayNumber = dayNumber d, millis = millis d, oid = n,
      currentDay = False, currentWeek = False, currentMonth = False, currentYear = False,
      currentOffset = 0,
      selectedDay = False, selectedWeek = False, selectedMonth = False, selectedYear = False,
      inCalendar = False, events = []\<rparr>"

definition updateCurrent :: "DayLib \<Rightarrow> Day \<Rightarrow> 'v CalendarDay \<Rightarrow> 'v CalendarDay" where
  "updateCurrent lib current d =
     d\<lparr>currentDay := sameDay d current,
       currentWeek := sameWeek lib (asDay d) current,
       currentMonth := sameMonth lib (asDay d) current,
       currentYear := sameYear lib (asDay d) current,
       currentOffset := daysBetween lib (asDay d) current\<rparr>"

definition updateSelected :: "DayLib \<Rightarrow> DaySpan \<Rightarrow> 'v CalendarDay \<Rightarrow> 'v CalendarDay" where
  "updateSelected lib selected d =
     d\<lparr>selectedDay := span_matchesDay lib selected (asDay d),
       selectedWeek := span_matchesWeek lib selected (asDay d),
       selectedMonth := span_matchesMonth lib selected (asDay d),
       selectedYear := span_matchesYear lib selected (asDay d)\<rparr>"

definition clearSelected :: "'v CalendarDay \<Rightarrow> 'v CalendarDay" where
  "clearSelected d =
     d\<lparr>selectedDay := False, selectedWeek := False, selectedMonth := False,
       selectedYear := False\<rparr>"

text \<open>
  The fields of \<^verbatim>\<open>class Calendar<T>\<close>. \<^verbatim>\<open>minimumSize\<close> and \<^verbatim>\<open>size\<close> are counts.
  \<^verbatim>\<open>nextOid\<close> is the allocation counter behind \<^verbatim>\<open>new CalendarDay\<close>.
\<close>

record 'v Calendar =
  span :: DaySpan
  filled :: DaySpan
  length_c :: nat
  type_c :: Units
  size_c :: nat
  moveStart :: "Day \<Rightarrow> int \<Rightarrow> Day"
  moveEnd :: "Day \<Rightarrow> int \<Rightarrow> Day"
  fill :: bool
  minimumSize :: nat
  repeatCovers :: bool
  listTimes :: bool
  eventsOutside :: bool
  selection :: "DaySpan option"
  days :: "'v CalendarDay list"
  schedules :: "'v CalendarSchedule list"
  nextOid :: nat

section \<open>Calendar: the rebuild pipeline\<close>

definition resetFilled :: "DayLib \<Rightarrow> 'v Calendar \<Rightarrow> 'v Calendar" where
  "resetFilled lib c =
     c\<lparr>filled :=
         \<lparr>span_start = (if fill c then startOfWeek lib (span_start (span c))
                         else span_start (span c)),
          span_end = (if fill c then endOfWeek lib (span_end (span c))
                       else span_end (span c))\<rparr>\<rparr>"

text \<open>The statement \<^verbatim>\<open>day.inCalendar = this.span.contains( day )\<close> of \<^verbatim>\<open>resetDays\<close>.\<close>

definition markInCalendar :: "DayLib \<Rightarrow> DaySpan \<Rightarrow> 'v CalendarDay \<Rightarrow> 'v CalendarDay" where
  "markInCalendar lib sp d = d\<lparr>inCalendar := span_contains lib sp (asDay d)\<rparr>"

text \<open>
  The \<^verbatim>\<open>for\<close> loop of \<^verbatim>\<open>resetDays\<close> over the cell array and the allocation counter.
  \<^verbatim>\<open>days[ i ]\<close> is \<^verbatim>\<open>undefined\<close> past the end of the array. A reused cell stays in its
  place; a new cell replaces position \<^verbatim>\<open>i\<close> (\<^verbatim>\<open>splice( i, 1, day )\<close>) or is pushed.
\<close>

function resetDays_loop ::
  "DayLib \<Rightarrow> DaySpan \<Rightarrow> nat \<Rightarrow> nat \<Rightarrow> Day \<Rightarrow> 'v CalendarDay list \<times> nat \<Rightarrow>
   'v CalendarDay list \<times> nat" where
  "resetDays_loop lib sp total_n i current (ds, n) =
     (if i < total_n
      then
        resetDays_loop lib sp total_n (i + 1) (next_day current)
          (if i < length ds \<and> sameDay (ds ! i) current
           then (ds[i := markInCalendar lib sp (ds ! i)], n)
           else if i < length ds
           then (ds[i := markInCalendar lib sp (newCalendarDay n current)], n + 1)
           else (ds @ [markInCalendar lib sp (newCalendarDay n current)], n + 1))
      else (ds, n))"
  by pat_completeness auto
termination
  by (relation "measure (\<lambda>(lib, sp, total_n, i, current, st). total_n - i)") auto

declare resetDays_loop.simps [simp del]

text \<open>One pass of the loop body, and what a pass leaves at its position: the old cell,
  marked, when its date is the target date, else a new cell, marked, whose identity was
  allocated between the counter values \<^verbatim>\<open>lo\<close> and \<^verbatim>\<open>hi\<close>.\<close>

definition resetStep ::
  "DayLib \<Rightarrow> DaySpan \<Rightarrow> nat \<Rightarrow> Day \<Rightarrow> 'v CalendarDay list \<times> nat \<Rightarrow> 'v CalendarDay list \<times> nat" where
  "resetStep lib sp i current st =
     (case st of (ds, n) \<Rightarrow>
        if i < length ds \<and> sameDay (ds ! i) current
        then (ds[i := markInCalendar lib sp (ds ! i)], n)
        else if i < length ds
        then (ds[i := markInCalendar lib sp (newCalendarDay n current)], n + 1)
        else (ds @ [markInCalendar lib sp (newCalendarDay n current)], n + 1))"

definition cellFor ::
  "DayLib \<Rightarrow> DaySpan \<Rightarrow> 'v CalendarDay list \<Rightarrow> nat \<Rightarrow> nat \<Rightarrow> nat \<Rightarrow> Day \<Rightarrow> 'v CalendarDay \<Rightarrow> bool" where
  "cellFor lib sp ds lo hi j target cell =
     (if j < length ds \<and> sameDay (ds ! j) target
      then cell = markInCalendar lib sp (ds ! j)
      else (\<exists>k. lo \<le> k \<and> k < hi \<and> cell = markInCalendar lib sp (newCalendarDay k target)))"

definition resetDays :: "DayLib \<Rightarrow> 'v Calendar \<Rightarrow> 'v Calendar" where
  "resetDays lib c0 =
     (let c = resetFilled lib c0;
          current = span_start (filled c);
          daysBetween_n = span_days lib (filled c);
          total_n = max (minimumSize c) daysBetween_n;
          (ds, n) = resetDays_loop lib (span c) total_n 0 current (days c, nextOid c)
      in c\<lparr>days := (if length ds > total_n then take total_n ds else ds), nextOid := n\<rparr>)"

text \<open>
  \<^verbatim>\<open>Calendar.iterateDays\<close> applies the iterator to every cell in order; each iterator of
  this file updates the cell it is given in place.
\<close>

definition cal_iterateDays ::
  "('v CalendarDay \<Rightarrow> 'v CalendarDay) \<Rightarrow> 'v Calendar \<Rightarrow> 'v Calendar" where
  "cal_iterateDays iterator c = c\<lparr>days := map iterator (days c)\<rparr>"

definition refreshCurrent :: "DayLib \<Rightarrow> Day \<Rightarrow> 'v Calendar \<Rightarrow> 'v Calendar" where
  "refreshCurrent lib today c = cal_iterateDays (updateCurrent lib today) c"

text \<open>The iterator of \<^verbatim>\<open>refreshSelection\<close>; \<^verbatim>\<open>this.selection\<close> is \<^verbatim>\<open>null\<close> when absent.\<close>

definition selectionIterator ::
  "DayLib \<Rightarrow> DaySpan option \<Rightarrow> 'v CalendarDay \<Rightarrow> 'v CalendarDay" where
  "selectionIterator lib sel d =
     (case sel of Some selected \<Rightarrow> updateSelected lib selected d
                | None \<Rightarrow> clearSelected d)"

definition refreshSelection :: "DayLib \<Rightarrow> 'v Calendar \<Rightarrow> 'v Calendar" where
  "refreshSelection lib c = cal_iterateDays (selectionIterator lib (selection c)) c"

text \<open>
  \<^verbatim>\<open>eventsForDay\<close>. The inner loop pushes one event for each span, numbered by
  \<^verbatim>\<open>timeIndex\<close>; the outer loop runs over the registrations, numbered by \<^verbatim>\<open>entryIndex\<close>.
\<close>

fun timeEvents ::
  "DayLib \<Rightarrow> nat \<Rightarrow> 'v \<Rightarrow> Schedule \<Rightarrow> Day \<Rightarrow> nat \<Rightarrow> DaySpan list \<Rightarrow> 'v CalendarEvent list" where
  "timeEvents lib eventId ev s day timeIndex [] = []"
| "timeEvents lib eventId ev s day timeIndex (t # ts) =
     newCalendarEvent lib (eventId + timeIndex) ev s t day
       # timeEvents lib eventId ev s day (timeIndex + 1) ts"

definition entryEvents ::
  "DayLib \<Rightarrow> Day \<Rightarrow> bool \<Rightarrow> bool \<Rightarrow> nat \<Rightarrow> 'v CalendarSchedule \<Rightarrow> 'v CalendarEvent list" where
  "entryEvents lib day getTimes covers entryIndex entry =
     (let s = schedule entry;
          ev = event entry;
          eventId = entryIndex * MAX_EVENTS_PER_DAY lib
      in if (covers \<and> coversDay (dayFields lib) s day) \<or>
            (\<not> covers \<and> matchesDay (dayFields lib) s day)
         then
           (if getTimes
            then timeEvents lib eventId ev s day 0
                   (if covers then getSpansOver lib (schedule entry) day
                    else getSpansOn lib (schedule entry) day False)
            else (case getSpanOver lib s day of
                    Some over \<Rightarrow> [newCalendarEvent lib eventId ev s over day]
                  | None \<Rightarrow> []))
         else [])"

fun eventsForDay_loop ::
  "DayLib \<Rightarrow> Day \<Rightarrow> bool \<Rightarrow> bool \<Rightarrow> nat \<Rightarrow> 'v CalendarSchedule list \<Rightarrow> 'v CalendarEvent list" where
  "eventsForDay_loop lib day getTimes covers entryIndex [] = []"
| "eventsForDay_loop lib day getTimes covers entryIndex (entry # entries) =
     entryEvents lib day getTimes covers entryIndex entry
       @ eventsForDay_loop lib day getTimes covers (entryIndex + 1) entries"

definition eventsForDay ::
  "DayLib \<Rightarrow> 'v Calendar \<Rightarrow> Day \<Rightarrow> bool \<Rightarrow> bool \<Rightarrow> 'v CalendarEvent list" where
  "eventsForDay lib c day getTimes covers =
     eventsForDay_loop lib day getTimes covers 0 (schedules c)"

text \<open>The iterator of \<^verbatim>\<open>refreshEvents\<close>.\<close>

definition eventsIterator :: "DayLib \<Rightarrow> 'v Calendar \<Rightarrow> 'v CalendarDay \<Rightarrow> 'v CalendarDay" where
  "eventsIterator lib c d =
     (if inCalendar d \<or> eventsOutside c
      then d\<lparr>events := eventsForDay lib c (asDay d) (listTimes c) (repeatCovers c)\<rparr>
      else d)"

definition refreshEvents :: "DayLib \<Rightarrow> 'v Calendar \<Rightarrow> 'v Calendar" where
  "refreshEvents lib c = cal_iterateDays (eventsIterator lib c) c"

text \<open>
  \<^verbatim>\<open>refresh(today)\<close>; the reference date is an explicit argument (the source defaults it
  to \<^verbatim>\<open>Day.today()\<close> at the call).
\<close>

definition refresh :: "DayLib \<Rightarrow> Day \<Rightarrow> 'v Calendar \<Rightarrow> 'v Calendar" where
  "refresh lib today c =
     refreshEvents lib
       (refreshSelection lib
          (refreshCurrent lib today
             (resetDays lib (c\<lparr>length_c := span_days lib (span c)\<rparr>))))"

text \<open>The cells after a whole pass of the pipeline over the cells that \<^verbatim>\<open>resetDays\<close> left.\<close>

definition pipelineCell ::
  "DayLib \<Rightarrow> Day \<Rightarrow> 'v Calendar \<Rightarrow> 'v CalendarDay \<Rightarrow> 'v CalendarDay" where
  "pipelineCell lib today c d =
     eventsIterator lib c (selectionIterator lib (selection c) (updateCurrent lib today d))"

section \<open>Calendar: the schedule registry\<close>

fun findSchedule_loop :: "'v \<Rightarrow> 'v CalendarSchedule list \<Rightarrow> 'v CalendarSchedule option" where
  "findSchedule_loop input [] = None"
| "findSchedule_loop input (e # es) =
     (if self e = input \<or> schedule_id e = input \<or> event e = input then Some e
      else findSchedule_loop input es)"



section \<open>Derived duration\<close>

text \<open>
  \<^verbatim>\<open>updateDurationInDays\<close>. The table \<^verbatim>\<open>Constants.DURATION_TO_MILLIS\<close> is not among the
  sources and is a parameter; a missing unit counts as 0 (\<^verbatim>\<open>|| 0\<close>). \<^verbatim>\<open>lastTime\<close> is
  \<^verbatim>\<open>undefined\<close> when there are no times. \<^verbatim>\<open>Math.ceil(x / day)\<close> on integers is
  \<^verbatim>\<open>- ((- x) div day)\<close>.
\<close>

definition updateDurationInDays :: "(string \<rightharpoonup> int) \<Rightarrow> Schedule \<Rightarrow> Schedule" where
  "updateDurationInDays DURATION_TO_MILLIS s =
     (let start_ms = (if times_s s = [] then 0 else last (times_s s));
          duration_ms = duration s *
            (case DURATION_TO_MILLIS (durationUnit s) of Some m \<Rightarrow> m | None \<Rightarrow> 0);
          exclude_ms = MILLIS_IN_DAY;
          day_ms = MILLIS_IN_DAY
      in s\<lparr>durationInDays :=
             nat (max 0 (- ((- (start_ms + duration_ms - exclude_ms)) div day_ms)))\<rparr>)"

section \<open>Notions for stating the properties\<close>

text \<open>
  The spec's reading of \<^verbatim>\<open>coversDay(D)\<close>: some day S with \<^verbatim>\<open>S \<le> D\<close> and
  \<^verbatim>\<open>D - S < durationInDays\<close> matches, and S's span extends to include D. The day S is
  the day \<^verbatim>\<open>k\<close> days before D; \<^verbatim>\<open>reaches S D\<close> stands for the span condition.
\<close>

definition coversDay_spec ::
  "(Day \<Rightarrow> Day \<Rightarrow> bool) \<Rightarrow> DayFields \<Rightarrow> Schedule \<Rightarrow> Day \<Rightarrow> bool" where
  "coversDay_spec reaches F s D =
     (\<exists>k. k < durationInDays s \<and> matchesDay F s (relativeDays D (- int k)) \<and>
          reaches (relativeDays D (- int k)) D)"

text \<open>
  A start day qualifies for \<^verbatim>\<open>day\<close> when it lies \<^verbatim>\<open>k\<close> days before \<^verbatim>\<open>day\<close>, at most
  \<^verbatim>\<open>durationInDays\<close> days back (so that its span of that length covers \<^verbatim>\<open>day\<close>), and
  matches.
\<close>

definition qualifies :: "DayFields \<Rightarrow> Schedule \<Rightarrow> Day \<Rightarrow> nat \<Rightarrow> bool" where
  "qualifies F s day k =
     (k \<le> durationInDays s \<and> matchesDay F s (relativeDays day (- int k)))"

text \<open>The spec's reading of \<^verbatim>\<open>findStartingDay\<close>: the earliest qualifying day.\<close>

definition isEarliestStart :: "DayFields \<Rightarrow> Schedule \<Rightarrow> Day \<Rightarrow> Day \<Rightarrow> bool" where
  "isEarliestStart F s day S =
     (\<exists>k. qualifies F s day k \<and> S = relativeDays day (- int k) \<and>
          (\<forall>j. qualifies F s day j \<longrightarrow> j \<le> k))"

text \<open>The latest qualifying day: the one closest to \<^verbatim>\<open>day\<close>.\<close>

definition isLatestStart :: "DayFields \<Rightarrow> Schedule \<Rightarrow> Day \<Rightarrow> Day \<Rightarrow> bool" where
  "isLatestStart F s day S =
     (\<exists>k. qualifies F s day k \<and> S = relativeDays day (- int k) \<and>
          (\<forall>j. qualifies F s day j \<longrightarrow> k \<le> j))"

text \<open>
  The results that a callback returns on a sequence of days, with the state threaded
  from one call to the next, and the state after the last call.
\<close>

fun replay :: "'st DayIterator \<Rightarrow> 'st \<Rightarrow> Day list \<Rightarrow> bool list \<times> 'st" where
  "replay onDay st [] = ([], st)"
| "replay onDay st (d # ds) =
     (case onDay d st of (res, st') \<Rightarrow>
        (case replay onDay st' ds of (rs, st'') \<Rightarrow> (res # rs, st'')))"

text \<open>
  The \<^verbatim>\<open>i\<close>-th day of a walk from \<^verbatim>\<open>day\<close>, one calendar day at a time in the given
  direction; the walk starts on \<^verbatim>\<open>day\<close> itself when \<^verbatim>\<open>includeDay\<close> is set and on its
  neighbour otherwise.
\<close>

definition walkedDay :: "bool \<Rightarrow> bool \<Rightarrow> Day \<Rightarrow> nat \<Rightarrow> Day" where
  "walkedDay next includeDay day i =
     relativeDays day
       ((if next then 1 else - 1) * (int i + (if includeDay then 0 else 1)))"

text \<open>
  A schedule with an empty exclusion set, no start and no end bound, and all twelve
  frequency checks configured as \<^verbatim>\<open>Always\<close>.
\<close>

definition unconstrained :: "Schedule \<Rightarrow> bool" where
  "unconstrained s =
     (exclude s = Map.empty \<and> start s = None \<and> end_s s = None \<and>
      dayOfWeek s = frequencyCheck Always \<and> dayOfMonth s = frequencyCheck Always \<and>
      dayOfYear s = frequencyCheck Always \<and> month s = frequencyCheck Always \<and>
      week s = frequencyCheck Always \<and> weekOfYear s = frequencyCheck Always \<and>
      weekspanOfYear s = frequencyCheck Always \<and> fullWeekOfYear s = frequencyCheck Always \<and>
      weekOfMonth s = frequencyCheck Always \<and> weekspanOfMonth s = frequencyCheck Always \<and>
      fullWeekOfMonth s = frequencyCheck Always \<and> year s = frequencyCheck Always)"

text \<open>The spans that a registration's schedule produces for the day.\<close>

definition entrySpans :: "DayLib \<Rightarrow> Schedule \<Rightarrow> Day \<Rightarrow> bool \<Rightarrow> DaySpan list" where
  "entrySpans lib s d0 covers =
     (if covers then getSpansOver lib s d0 else getSpansOn lib s d0 False)"

text \<open>
  Modelled from the spec: the containment test of \<^verbatim>\<open>DaySpan\<close> is not among the sources.
  A span runs from its start up to, not including, its end. It extends to include the
  calendar day D when it starts on D, or starts on an earlier day and ends after the
  start of D.
\<close>

definition spanIncludesDay :: "DaySpan \<Rightarrow> Day \<Rightarrow> bool" where
  "spanIncludesDay sp D =
     (dayNumber (span_start sp) \<le> dayNumber D \<and>
      (dayNumber (span_start sp) = dayNumber D \<or>
       dayNumber D * MILLIS_IN_DAY < day_time (span_end sp)))"

text \<open>
  Modelled from the spec: \<^verbatim>\<open>Day.start\<close>, \<^verbatim>\<open>Day.withTime\<close>, \<^verbatim>\<open>Day.add\<close> and
  \<^verbatim>\<open>Constants.DURATION_TO_MILLIS\<close> are not among the sources. The spec has
  \<^verbatim>\<open>durationInDays\<close> re-derived at every mutation, and spans built by combining a day
  with a time of day and advancing by the duration. A schedule has a derived duration
  when \<^verbatim>\<open>durationInDays\<close> is the value that \<^verbatim>\<open>updateDurationInDays\<close> computes,
  \<^verbatim>\<open>start()\<close> is midnight of the day, \<^verbatim>\<open>withTime\<close> sets the time of day, and \<^verbatim>\<open>add\<close>
  advances the instant by the schedule's duration as the table converts it.
\<close>

definition derivedDuration :: "(string \<rightharpoonup> int) \<Rightarrow> DayLib \<Rightarrow> Schedule \<Rightarrow> bool" where
  "derivedDuration DURATION_TO_MILLIS lib s =
     (durationInDays s = durationInDays (updateDurationInDays DURATION_TO_MILLIS s) \<and>
      (\<forall>d. day_start lib d = d\<lparr>millis := 0\<rparr>) \<and>
      (\<forall>d t. withTime lib d t = d\<lparr>millis := t\<rparr>) \<and>
      (\<forall>d. day_time (day_add lib d (duration s) (durationUnit s)) =
             day_time d + duration s *
               (case DURATION_TO_MILLIS (durationUnit s) of Some m \<Rightarrow> m | None \<Rightarrow> 0)))"

section \<open>Worked examples\<close>

text \<open>
  A Day capability for the examples: days are counted from 1970-01-01, a Thursday, so
  the day of the week (0 = Sunday) of day \<^verbatim>\<open>n\<close> is \<^verbatim>\<open>(n + 4) mod 7\<close>; the day number
  serves as the day identifier. The other components are read by always-true checks
  only and are left at 0.
\<close>

definition exampleFields :: DayFields where
  "exampleFields =
     \<lparr>dayIdentifier = dayNumber,
      day_dayOfWeek = (\<lambda>d. (dayNumber d + 4) mod 7),
      day_dayOfMonth = (\<lambda>d. 0), day_dayOfYear = (\<lambda>d. 0), day_year = (\<lambda>d. 0),
      day_month = (\<lambda>d. 0), day_week = (\<lambda>d. 0), day_weekOfYear = (\<lambda>d. 0),
      day_weekspanOfYear = (\<lambda>d. 0), day_fullWeekOfYear = (\<lambda>d. 0),
      day_weekOfMonth = (\<lambda>d. 0), day_weekspanOfMonth = (\<lambda>d. 0),
      day_fullWeekOfMonth = (\<lambda>d. 0)\<rparr>"

definition exampleMillis :: "string \<rightharpoonup> int" where
  "exampleMillis = [''days'' \<mapsto> MILLIS_IN_DAY, ''hours'' \<mapsto> 3600000]"

text \<open>A full-day schedule of one day, every day, with no bounds and no exclusions.\<close>

definition everyDay :: Schedule where
  "everyDay =
     \<lparr>start = None, end_s = None, duration = 1, durationUnit = ''days'', times_s = [],
      durationInDays = 0, exclude = Map.empty,
      dayOfWeek = frequencyCheck Always, dayOfMonth = frequencyCheck Always,
      dayOfYear = frequencyCheck Always, month = frequencyCheck Always,
      week = frequencyCheck Always, weekOfYear = frequencyCheck Always,
      weekspanOfYear = frequencyCheck Always, fullWeekOfYear = frequencyCheck Always,
      weekOfMonth = frequencyCheck Always, weekspanOfMonth = frequencyCheck Always,
      fullWeekOfMonth = frequencyCheck Always, year = frequencyCheck Always\<rparr>"

text \<open>The same with occurrences of two days: \<^verbatim>\<open>durationInDays\<close> is 1.\<close>

definition everyDay2 :: Schedule where
  "everyDay2 = updateDurationInDays exampleMillis (everyDay\<lparr>duration := 2\<rparr>)"

text \<open>The scenario of the spec: full-day occurrences of two days, every Monday.\<close>

definition everyMonday2 :: Schedule where
  "everyMonday2 = everyDay2\<lparr>dayOfWeek := frequencyCheck (OneOf [1])\<rparr>"

definition mkDay :: "int \<Rightarrow> Day" where
  "mkDay n = \<lparr>dayNumber = n, millis = 0\<rparr>"

text \<open>Every day from day 3 up to, not including, day 10; day 7 is excluded.\<close>

definition exampleBounded :: Schedule where
  "exampleBounded =
     everyDay\<lparr>start := Some (mkDay 3), end_s := Some (mkDay 10), exclude := [7 \<mapsto> True]\<rparr>"

text \<open>Two-day occurrences every day, with day 5 excluded.\<close>

definition everyDay2_without5 :: Schedule where
  "everyDay2_without5 = everyDay2\<lparr>exclude := [5 \<mapsto> True]\<rparr>"

text \<open>Two walks used as examples: two Mondays from day 0, and a walk with no match.\<close>

definition twoMondays :: "(Day list) IterateOutcome" where
  "twoMondays = iterateDays exampleFields everyMonday2 (mkDay 0) 2 True pushDay False 366 []"

definition noMatchWalk :: "(Day list) IterateOutcome" where
  "noMatchWalk = iterateDays exampleFields exampleBounded (mkDay 20) 2 True pushDay False 366 []"

text \<open>
  An implementation of the absent collaborators for the calendar examples: weeks start
  on Sunday, durations are whole days or hours, a span contains the instants from its
  start to its end, and \<^verbatim>\<open>MAX_EVENTS_PER_DAY\<close> is 24.
\<close>

definition exampleLib :: DayLib where
  "exampleLib =
     \<lparr>dayFields = exampleFields,
      MAX_EVENTS_PER_DAY = 24,
      day_start = (\<lambda>d. d\<lparr>millis := 0\<rparr>),
      day_add = (\<lambda>d n u. if u = ''days'' then relativeDays d n
                           else d\<lparr>millis := millis d + n * 3600000\<rparr>),
      withTime = (\<lambda>d t. d\<lparr>millis := t\<rparr>),
      relative = (\<lambda>d ms. \<lparr>dayNumber = (day_time d + ms) div MILLIS_IN_DAY,
                              millis = (day_time d + ms) mod MILLIS_IN_DAY\<rparr>),
      startOfWeek = (\<lambda>d. \<lparr>dayNumber = dayNumber d - (dayNumber d + 4) mod 7, millis = 0\<rparr>),
      endOfWeek = (\<lambda>d. \<lparr>dayNumber = dayNumber d - (dayNumber d + 4) mod 7 + 6,
                           millis = MILLIS_IN_DAY - 1\<rparr>),
      sameWeek = (\<lambda>a b. (dayNumber a + 4) div 7 = (dayNumber b + 4) div 7),
      sameMonth = (\<lambda>a b. dayNumber a div 30 = dayNumber b div 30),
      sameYear = (\<lambda>a b. dayNumber a div 365 = dayNumber b div 365),
      daysBetween = (\<lambda>a b. dayNumber a - dayNumber b),
      span_days = (\<lambda>sp. nat (- ((- (day_time (span_end sp) - day_time (span_start sp)))
                                  div MILLIS_IN_DAY))),
      span_contains = (\<lambda>sp d. day_time (span_start sp) \<le> day_time d \<and>
                                day_time d \<le> day_time (span_end sp)),
      span_isPoint = (\<lambda>sp. day_time (span_start sp) = day_time (span_end sp)),
      span_matchesDay = (\<lambda>sp d. dayNumber (span_start sp) \<le> dayNumber d \<and>
                                  dayNumber d \<le> dayNumber (span_end sp)),
      span_matchesWeek = (\<lambda>sp d. (dayNumber (span_start sp) + 4) div 7 \<le> (dayNumber d + 4) div 7 \<and>
                                   (dayNumber d + 4) div 7 \<le> (dayNumber (span_end sp) + 4) div 7),
      span_matchesMonth = (\<lambda>sp d. dayNumber (span_start sp) div 30 \<le> dayNumber d div 30 \<and>
                                    dayNumber d div 30 \<le> dayNumber (span_end sp) div 30),
      span_matchesYear = (\<lambda>sp d. dayNumber (span_start sp) div 365 \<le> dayNumber d div 365 \<and>
                                   dayNumber d div 365 \<le> dayNumber (span_end sp) div 365)\<rparr>"

text \<open>One-hour meetings at 09:00 and 17:00 every day.\<close>

definition meetings :: Schedule where
  "meetings =
     everyDay\<lparr>duration := 1, durationUnit := ''hours'', times_s := [32400000, 61200000]\<rparr>"

text \<open>
  Two registrations; payloads and object identities are numbers. The calendar shows the
  week from day 3 (a Sunday) to the end of day 9 and has not been refreshed yet.
\<close>

definition registrationA :: "nat CalendarSchedule" where
  "registrationA = \<lparr>self = 100, schedule_id = 200, schedule = everyMonday2, event = 300\<rparr>"

definition registrationB :: "nat CalendarSchedule" where
  "registrationB = \<lparr>self = 101, schedule_id = 201, schedule = meetings, event = 301\<rparr>"

definition exampleCalendar :: "nat Calendar" where
  "exampleCalendar =
     \<lparr>span = \<lparr>span_start = mkDay 3,
               span_end = \<lparr>dayNumber = 9, millis = MILLIS_IN_DAY - 1\<rparr>\<rparr>,
      filled = \<lparr>span_start = mkDay 3,
                 span_end = \<lparr>dayNumber = 9, millis = MILLIS_IN_DAY - 1\<rparr>\<rparr>,
      length_c = 7, type_c = WEEK, size_c = 1,
      moveStart = (\<lambda>d n. relativeDays d (7 * n)),
      moveEnd = (\<lambda>d n. relativeDays d (7 * n)),
      fill = False, minimumSize = 0, repeatCovers = True, listTimes = True,
      eventsOutside = False, selection = None, days = [],
      schedules = [registrationA, registrationB], nextOid = 0\<rparr>"

text \<open>
  The example calendar with its cells built, then with a minimum of ten cells asked for,
  and with its range moved one day ahead.
\<close>

definition shownWeek :: "nat Calendar" where
  "shownWeek = resetDays exampleLib exampleCalendar"

definition grownWeek :: "nat Calendar" where
  "grownWeek = shownWeek\<lparr>minimumSize := 10\<rparr>"

definition movedWeek :: "nat Calendar" where
  "movedWeek =
     shownWeek\<lparr>span := \<lparr>span_start = mkDay 4,
                            span_end = \<lparr>dayNumber = 10, millis = MILLIS_IN_DAY - 1\<rparr>\<rparr>\<rparr>"

section \<open>Properties of the recurrence engine\<close>

subsection \<open>Day arithmetic and the backward search\<close>

lemma relativeDays_0: "relativeDays d 0 = d"
  by (simp add: relativeDays_def)

lemma relativeDays_prev: "relativeDays (prev_day d) n = relativeDays d (n - 1)"
  by (simp add: relativeDays_def prev_day_def)

lemma all_shift:
  assumes "0 \<le> (b::int)"
  shows "(\<forall>k. 0 \<le> k \<and> k \<le> b \<longrightarrow> Q k) \<longleftrightarrow> (Q 0 \<and> (\<forall>k. 0 \<le> k \<and> k \<le> b - 1 \<longrightarrow> Q (k + 1)))"
proof
  assume a: "\<forall>k. 0 \<le> k \<and> k \<le> b \<longrightarrow> Q k"
  show "Q 0 \<and> (\<forall>k. 0 \<le> k \<and> k \<le> b - 1 \<longrightarrow> Q (k + 1))"
    using a assms by auto
next
  assume a: "Q 0 \<and> (\<forall>k. 0 \<le> k \<and> k \<le> b - 1 \<longrightarrow> Q (k + 1))"
  show "\<forall>k. 0 \<le> k \<and> k \<le> b \<longrightarrow> Q k"
  proof (intro allI impI)
    fix k assume k: "0 \<le> k \<and> k \<le> b"
    show "Q k"
    proof (cases "k = 0")
      case True then show ?thesis using a by simp
    next
      case False
      then have "0 \<le> k - 1 \<and> k - 1 \<le> b - 1" using k by arith
      then have "Q ((k - 1) + 1)" using a by blast
      then show ?thesis by simp
    qed
  qed
qed

lemma findStartingDay_loop_None:
  "findStartingDay_loop F s day behind = None \<longleftrightarrow>
     (\<forall>k. 0 \<le> k \<and> k \<le> behind \<longrightarrow> \<not> matchesDay F s (relativeDays day (- k)))"
proof (induction F s day behind rule: findStartingDay_loop.induct)
  case (1 F s day behind)
  show ?case
  proof (cases "behind \<ge> 0")
    case False
    then show ?thesis by (subst findStartingDay_loop.simps) auto
  next
    case True
    show ?thesis
    proof (cases "matchesDay F s day")
      case m: True
      have "findStartingDay_loop F s day behind = Some day"
        using True m by (subst findStartingDay_loop.simps) simp
      moreover have "matchesDay F s (relativeDays day (- 0))"
        using m by (simp add: relativeDays_0)
      ultimately show ?thesis using True by (metis option.distinct(1) order_refl)
    next
      case m: False
      have step: "findStartingDay_loop F s day behind = findStartingDay_loop F s (prev_day day) (behind - 1)"
        using True m by (subst findStartingDay_loop.simps) simp
      have IH: "findStartingDay_loop F s (prev_day day) (behind - 1) = None \<longleftrightarrow>
          (\<forall>k. 0 \<le> k \<and> k \<le> behind - 1 \<longrightarrow> \<not> matchesDay F s (relativeDays day (- (k + 1))))"
        using "1.IH"[OF True m] by (simp add: relativeDays_prev)
      show ?thesis
        unfolding step IH
        using all_shift[OF True, of "\<lambda>k. \<not> matchesDay F s (relativeDays day (- k))"] m
        by (simp add: relativeDays_0)
    qed
  qed
qed

lemma findStartingDay_loop_Some:
  "findStartingDay_loop F s day behind = Some S \<Longrightarrow>
     \<exists>k. 0 \<le> k \<and> k \<le> behind \<and> S = relativeDays day (- k) \<and> matchesDay F s S \<and>
         (\<forall>j. 0 \<le> j \<and> j < k \<longrightarrow> \<not> matchesDay F s (relativeDays day (- j)))"
proof (induction F s day behind rule: findStartingDay_loop.induct)
  case (1 F s day behind)
  show ?case
  proof (cases "behind \<ge> 0")
    case False
    then show ?thesis using "1.prems" by (subst (asm) findStartingDay_loop.simps) auto
  next
    case True
    show ?thesis
    proof (cases "matchesDay F s day")
      case m: True
      have "findStartingDay_loop F s day behind = Some day"
        using True m by (subst findStartingDay_loop.simps) simp
      then have "S = day" using "1.prems" by simp
      then show ?thesis using True m
        by (intro exI[of _ 0]) (auto simp: relativeDays_0)
    next
      case m: False
      have step: "findStartingDay_loop F s day behind = findStartingDay_loop F s (prev_day day) (behind - 1)"
        using True m by (subst findStartingDay_loop.simps) simp
      from "1.IH"[OF True m] "1.prems" step
      obtain k where k: "0 \<le> k" "k \<le> behind - 1" "S = relativeDays (prev_day day) (- k)"
        "matchesDay F s S"
        "\<forall>j. 0 \<le> j \<and> j < k \<longrightarrow> \<not> matchesDay F s (relativeDays (prev_day day) (- j))"
        by auto
      have none: "\<forall>j. 0 \<le> j \<and> j < k + 1 \<longrightarrow> \<not> matchesDay F s (relativeDays day (- j))"
      proof (intro allI impI)
        fix j assume j: "0 \<le> j \<and> j < k + 1"
        show "\<not> matchesDay F s (relativeDays day (- j))"
        proof (cases "j = 0")
          case True then show ?thesis using m by (simp add: relativeDays_0)
        next
          case False
          then have "0 \<le> j - 1 \<and> j - 1 < k" using j by arith
          then have "\<not> matchesDay F s (relativeDays (prev_day day) (- (j - 1)))"
            using k(5) by blast
          then show ?thesis by (simp add: relativeDays_prev)
        qed
      qed
      show ?thesis
        using k(1,2,4) none k(3)
        by (intro exI[of _ "k + 1"]) (simp add: relativeDays_prev)
    qed
  qed
qed

lemma findStartingDay_None_iff:
  "findStartingDay F s day = None \<longleftrightarrow> \<not> (\<exists>k. qualifies F s day k)"
proof -
  have "(\<forall>k::int. 0 \<le> k \<and> k \<le> int (durationInDays s) \<longrightarrow> \<not> matchesDay F s (relativeDays day (- k)))
        \<longleftrightarrow> (\<forall>k::nat. k \<le> durationInDays s \<longrightarrow> \<not> matchesDay F s (relativeDays day (- int k)))"
  proof
    assume a: "\<forall>k::int. 0 \<le> k \<and> k \<le> int (durationInDays s) \<longrightarrow> \<not> matchesDay F s (relativeDays day (- k))"
    show "\<forall>k::nat. k \<le> durationInDays s \<longrightarrow> \<not> matchesDay F s (relativeDays day (- int k))"
      using a by auto
  next
    assume a: "\<forall>k::nat. k \<le> durationInDays s \<longrightarrow> \<not> matchesDay F s (relativeDays day (- int k))"
    show "\<forall>k::int. 0 \<le> k \<and> k \<le> int (durationInDays s) \<longrightarrow> \<not> matchesDay F s (relativeDays day (- k))"
    proof (intro allI impI)
      fix k :: int assume k: "0 \<le> k \<and> k \<le> int (durationInDays s)"
      then have "nat k \<le> durationInDays s" by arith
      then have "\<not> matchesDay F s (relativeDays day (- int (nat k)))" using a by blast
      then show "\<not> matchesDay F s (relativeDays day (- k))" using k by simp
    qed
  qed
  then show ?thesis
    by (simp add: findStartingDay_def findStartingDay_loop_None qualifies_def)
qed

lemma findStartingDay_Some_latest:
  assumes "findStartingDay F s day = Some S"
  shows "\<exists>k. qualifies F s day k \<and> S = relativeDays day (- int k) \<and>
             (\<forall>j. qualifies F s day j \<longrightarrow> k \<le> j)"
proof -
  from assms findStartingDay_loop_Some[of F s day "int (durationInDays s)" S]
  obtain k :: int where k: "0 \<le> k" "k \<le> int (durationInDays s)" "S = relativeDays day (- k)"
    "matchesDay F s S"
    "\<forall>j. 0 \<le> j \<and> j < k \<longrightarrow> \<not> matchesDay F s (relativeDays day (- j))"
    by (auto simp: findStartingDay_def)
  have q: "qualifies F s day (nat k)"
    using k by (simp add: qualifies_def)
  have least: "\<forall>j. qualifies F s day j \<longrightarrow> nat k \<le> j"
  proof (intro allI impI)
    fix j assume j: "qualifies F s day j"
    show "nat k \<le> j"
    proof (rule ccontr)
      assume "\<not> nat k \<le> j"
      then have "0 \<le> int j \<and> int j < k" by arith
      then have "\<not> matchesDay F s (relativeDays day (- int j))" using k(5) by blast
      then show False using j by (simp add: qualifies_def)
    qed
  qed
  show ?thesis using q least k(1,3) by (intro exI[of _ "nat k"]) simp
qed

lemma relativeDays_inj: "relativeDays d (- int j) = relativeDays d (- int k) \<Longrightarrow> j = k"
proof -
  assume "relativeDays d (- int j) = relativeDays d (- int k)"
  then have "dayNumber (relativeDays d (- int j)) = dayNumber (relativeDays d (- int k))" by simp
  then show "j = k" by (simp add: relativeDays_def)
qed


lemma isExcluded_iff: "isExcluded F s day \<longleftrightarrow> exclude s (dayIdentifier F day) = Some True"
  by (simp add: isExcluded_def truthy_def split: option.splits)

lemma isIncluded_iff: "isIncluded F s day \<longleftrightarrow> \<not> isExcluded F s day"
  by (simp add: isExcluded_def isIncluded_def)

lemma everyDay2_durationInDays: "durationInDays everyDay2 = 1"
  by (simp add: everyDay2_def updateDurationInDays_def everyDay_def exampleMillis_def
      MILLIS_IN_DAY_def Let_def)

lemma everyMonday2_durationInDays: "durationInDays everyMonday2 = 1"
  by (simp add: everyMonday2_def everyDay2_durationInDays)

subsection \<open>C2: matchesDay\<close>

text \<open>
  Claim C2. \<^verbatim>\<open>matchesDay(day)\<close> is true iff the day is not excluded, lies within
  \<^verbatim>\<open>[start, end)\<close> (an absent bound does not constrain that side) and all twelve
  frequency checks pass for the corresponding components of the day. In particular a
  day before \<^verbatim>\<open>start\<close>, or at or after \<^verbatim>\<open>end\<close>, never matches.
\<close>

theorem matchesDay_iff_all_conditions:
  "(matchesDay F s day \<longleftrightarrow>
      \<not> isExcluded F s day \<and>
      (\<forall>a. start s = Some a \<longrightarrow> day_time a \<le> day_time day) \<and>
      (\<forall>b. end_s s = Some b \<longrightarrow> day_time day < day_time b) \<and>
      dayOfWeek s (day_dayOfWeek F day) \<and>
      dayOfMonth s (day_dayOfMonth F day) \<and>
      dayOfYear s (day_dayOfYear F day) \<and>
      month s (day_month F day) \<and>
      week s (day_week F day) \<and>
      weekOfYear s (day_weekOfYear F day) \<and>
      weekspanOfYear s (day_weekspanOfYear F day) \<and>
      fullWeekOfYear s (day_fullWeekOfYear F day) \<and>
      weekOfMonth s (day_weekOfMonth F day) \<and>
      weekspanOfMonth s (day_weekspanOfMonth F day) \<and>
      fullWeekOfMonth s (day_fullWeekOfMonth F day) \<and>
      year s (day_year F day)) \<and>
   ((\<exists>a. start s = Some a \<and> day_time day < day_time a) \<or>
    (\<exists>b. end_s s = Some b \<and> day_time b \<le> day_time day)
      \<longrightarrow> \<not> matchesDay F s day)"
proof -
  have span: "matchesSpan s day \<longleftrightarrow>
      (\<forall>a. start s = Some a \<longrightarrow> day_time a \<le> day_time day) \<and>
      (\<forall>b. end_s s = Some b \<longrightarrow> day_time day < day_time b)"
    by (simp add: matchesSpan_def isSameOrAfter_def isBefore_def split: option.splits)
  have outside: "(\<exists>a. start s = Some a \<and> day_time day < day_time a) \<or>
      (\<exists>b. end_s s = Some b \<and> day_time b \<le> day_time day) \<Longrightarrow> \<not> matchesSpan s day"
    unfolding span by auto
  have m: "matchesDay F s day \<Longrightarrow> matchesSpan s day"
    by (simp add: matchesDay_def)
  show ?thesis
  proof (intro conjI impI)
    show "matchesDay F s day \<longleftrightarrow>
      \<not> isExcluded F s day \<and>
      (\<forall>a. start s = Some a \<longrightarrow> day_time a \<le> day_time day) \<and>
      (\<forall>b. end_s s = Some b \<longrightarrow> day_time day < day_time b) \<and>
      dayOfWeek s (day_dayOfWeek F day) \<and>
      dayOfMonth s (day_dayOfMonth F day) \<and>
      dayOfYear s (day_dayOfYear F day) \<and>
      month s (day_month F day) \<and>
      week s (day_week F day) \<and>
      weekOfYear s (day_weekOfYear F day) \<and>
      weekspanOfYear s (day_weekspanOfYear F day) \<and>
      fullWeekOfYear s (day_fullWeekOfYear F day) \<and>
      weekOfMonth s (day_weekOfMonth F day) \<and>
      weekspanOfMonth s (day_weekspanOfMonth F day) \<and>
      fullWeekOfMonth s (day_fullWeekOfMonth F day) \<and>
      year s (day_year F day)"
      unfolding matchesDay_def isIncluded_iff span by blast
  next
    assume "(\<exists>a. start s = Some a \<and> day_time day < day_time a) \<or>
      (\<exists>b. end_s s = Some b \<and> day_time b \<le> day_time day)"
    then show "\<not> matchesDay F s day" using outside m by blast
  qed
qed

theorem matchesDay_iff_all_conditions_witness:
  "matchesDay exampleFields exampleBounded (mkDay 5) \<and>
   \<not> matchesDay exampleFields exampleBounded (mkDay 2) \<and>
   \<not> matchesDay exampleFields exampleBounded (mkDay 10)"
proof (intro conjI)
  have ex: "\<not> isExcluded exampleFields exampleBounded (mkDay 5)"
    by (simp add: isExcluded_iff exampleBounded_def exampleFields_def mkDay_def)
  have bounds: "start exampleBounded = Some (mkDay 3)" "end_s exampleBounded = Some (mkDay 10)"
    by (simp_all add: exampleBounded_def)
  have times: "day_time (mkDay 3) \<le> day_time (mkDay 5)" "day_time (mkDay 5) < day_time (mkDay 10)"
    "day_time (mkDay 2) < day_time (mkDay 3)" "day_time (mkDay 10) \<le> day_time (mkDay 10)"
    by (simp_all add: day_time_def mkDay_def MILLIS_IN_DAY_def)
  have checks: "dayOfWeek exampleBounded v" "dayOfMonth exampleBounded v"
    "dayOfYear exampleBounded v" "month exampleBounded v" "week exampleBounded v"
    "weekOfYear exampleBounded v" "weekspanOfYear exampleBounded v"
    "fullWeekOfYear exampleBounded v" "weekOfMonth exampleBounded v"
    "weekspanOfMonth exampleBounded v" "fullWeekOfMonth exampleBounded v"
    "year exampleBounded v" for v
    by (simp_all add: exampleBounded_def everyDay_def)
  show "matchesDay exampleFields exampleBounded (mkDay 5)"
    using matchesDay_iff_all_conditions[of exampleFields exampleBounded "mkDay 5"]
      ex bounds times checks by simp
  show "\<not> matchesDay exampleFields exampleBounded (mkDay 2)"
    using matchesDay_iff_all_conditions[of exampleFields exampleBounded "mkDay 2"]
      bounds times by blast
  show "\<not> matchesDay exampleFields exampleBounded (mkDay 10)"
    using matchesDay_iff_all_conditions[of exampleFields exampleBounded "mkDay 10"]
      bounds times by blast
qed

subsection \<open>C3: findStartingDay\<close>

text \<open>
  Claim C3, as amended. \<^verbatim>\<open>findStartingDay(day)\<close> returns the latest day S, the one
  closest to \<^verbatim>\<open>day\<close>, such that S matches and lies at most \<^verbatim>\<open>durationInDays\<close> days
  before \<^verbatim>\<open>day\<close>; it returns \<^verbatim>\<open>day\<close> itself when \<^verbatim>\<open>day\<close> matches, and \<^verbatim>\<open>null\<close> exactly
  when no day within the bound matches.
\<close>

theorem findStartingDay_latest:
  "(findStartingDay F s day = Some S \<longleftrightarrow> isLatestStart F s day S) \<and>
   (findStartingDay F s day = None \<longleftrightarrow> \<not> (\<exists>k. qualifies F s day k)) \<and>
   (matchesDay F s day \<longrightarrow> findStartingDay F s day = Some day)"
proof (intro conjI)
  show "findStartingDay F s day = Some S \<longleftrightarrow> isLatestStart F s day S"
  proof
    assume "findStartingDay F s day = Some S"
    then show "isLatestStart F s day S"
      unfolding isLatestStart_def by (rule findStartingDay_Some_latest)
  next
    assume "isLatestStart F s day S"
    then obtain k where k: "qualifies F s day k" "S = relativeDays day (- int k)"
      "\<forall>j. qualifies F s day j \<longrightarrow> k \<le> j"
      unfolding isLatestStart_def by blast
    from k(1) have "findStartingDay F s day \<noteq> None"
      using findStartingDay_None_iff by blast
    then obtain S' where S': "findStartingDay F s day = Some S'" by blast
    from findStartingDay_Some_latest[OF S'] obtain k' where k':
      "qualifies F s day k'" "S' = relativeDays day (- int k')"
      "\<forall>j. qualifies F s day j \<longrightarrow> k' \<le> j" by blast
    have "k = k'" using k(1,3) k'(1,3) by (meson le_antisym)
    then show "findStartingDay F s day = Some S" using S' k(2) k'(2) by simp
  qed
next
  show "findStartingDay F s day = None \<longleftrightarrow> \<not> (\<exists>k. qualifies F s day k)"
    by (rule findStartingDay_None_iff)
next
  show "matchesDay F s day \<longrightarrow> findStartingDay F s day = Some day"
    by (subst findStartingDay_def, subst findStartingDay_loop.simps) simp
qed

text \<open>
  On the spec's scenario (two-day occurrences every Monday), the Tuesday after is
  traced back to the Monday, the Wednesday to nothing, and the Monday to itself.
\<close>

theorem findStartingDay_latest_witness:
  "isLatestStart exampleFields everyMonday2 (mkDay 5) (mkDay 4) \<and>
   \<not> (\<exists>k. qualifies exampleFields everyMonday2 (mkDay 6) k) \<and>
   findStartingDay exampleFields everyMonday2 (mkDay 4) = Some (mkDay 4)"
proof (intro conjI)
  have "findStartingDay exampleFields everyMonday2 (mkDay 5) = Some (mkDay 4)"
    by code_simp
  then show "isLatestStart exampleFields everyMonday2 (mkDay 5) (mkDay 4)"
    using findStartingDay_latest[of exampleFields everyMonday2 "mkDay 5" "mkDay 4"] by blast
  have "findStartingDay exampleFields everyMonday2 (mkDay 6) = None"
    by code_simp
  then show "\<not> (\<exists>k. qualifies exampleFields everyMonday2 (mkDay 6) k)"
    using findStartingDay_latest[of exampleFields everyMonday2 "mkDay 6" "mkDay 6"] by blast
  have "matchesDay exampleFields everyMonday2 (mkDay 4)"
    by code_simp
  then show "findStartingDay exampleFields everyMonday2 (mkDay 4) = Some (mkDay 4)"
    using findStartingDay_latest[of exampleFields everyMonday2 "mkDay 4" "mkDay 4"] by blast
qed

text \<open>
  The claim as the spec words it, with the earliest qualifying day, fails: with two-day
  occurrences every day, \<^verbatim>\<open>findStartingDay\<close> of day 5 is day 5, although day 4 also
  matches, covers day 5 and is earlier.
\<close>

theorem findStartingDay_earliest_counterexample:
  "findStartingDay exampleFields everyDay2 (mkDay 5) = Some (mkDay 5) \<and>
   \<not> isEarliestStart exampleFields everyDay2 (mkDay 5) (mkDay 5)"
proof
  show "findStartingDay exampleFields everyDay2 (mkDay 5) = Some (mkDay 5)"
    by code_simp
  have q1: "qualifies exampleFields everyDay2 (mkDay 5) 1"
    by code_simp
  show "\<not> isEarliestStart exampleFields everyDay2 (mkDay 5) (mkDay 5)"
  proof
    assume "isEarliestStart exampleFields everyDay2 (mkDay 5) (mkDay 5)"
    then obtain k where k: "mkDay 5 = relativeDays (mkDay 5) (- int k)"
      "\<forall>j. qualifies exampleFields everyDay2 (mkDay 5) j \<longrightarrow> j \<le> k"
      unfolding isEarliestStart_def by blast
    from k(1) have "relativeDays (mkDay 5) (- int 0) = relativeDays (mkDay 5) (- int k)"
      by (simp add: relativeDays_0)
    then have "k = 0" using relativeDays_inj by blast
    moreover have "1 \<le> k" using k(2) q1 by blast
    ultimately show False by simp
  qed
qed

subsection \<open>C1: coversDay\<close>

lemma ceil_div_reach:
  assumes b: "0 < (b::int)" and k: "1 \<le> k" and le: "k \<le> - ((- a) div b)"
  shows "(k - 1) * b < a"
proof -
  have q: "(- a) div b \<le> - k" using le by simp
  have m: "(- a) mod b < b" using b by simp
  have e: "(- a) div b * b + (- a) mod b = - a" by simp
  have "0 \<le> b" using b by simp
  with q have "(- a) div b * b \<le> (- k) * b" by (rule mult_right_mono)
  with m e have "- a < (- k) * b + b" by linarith
  then show ?thesis by (simp add: algebra_simps)
qed

lemma derived_reach:
  assumes d: "durationInDays s = durationInDays (updateDurationInDays T s)"
    and k: "1 \<le> k" "k \<le> durationInDays s"
  shows "int k * MILLIS_IN_DAY <
     (if times_s s = [] then 0 else last (times_s s)) +
     duration s * (case T (durationUnit s) of Some m \<Rightarrow> m | None \<Rightarrow> 0)"
proof -
  define x where "x = (if times_s s = [] then 0 else last (times_s s)) +
     duration s * (case T (durationUnit s) of Some m \<Rightarrow> m | None \<Rightarrow> 0)"
  have dd: "durationInDays s = nat (max 0 (- ((- (x - MILLIS_IN_DAY)) div MILLIS_IN_DAY)))"
    unfolding d x_def by (simp add: updateDurationInDays_def Let_def)
  have "int k \<le> - ((- (x - MILLIS_IN_DAY)) div MILLIS_IN_DAY)"
    using k unfolding dd by linarith
  moreover have "0 < MILLIS_IN_DAY" by (simp add: MILLIS_IN_DAY_def)
  moreover have "1 \<le> int k" using k(1) by simp
  ultimately have "(int k - 1) * MILLIS_IN_DAY < x - MILLIS_IN_DAY"
    by (rule ceil_div_reach[rotated 2])
  then have "int k * MILLIS_IN_DAY < x" by (simp add: algebra_simps)
  then show ?thesis unfolding x_def .
qed

lemma derived_span_reaches:
  assumes dv: "derivedDuration T lib s" and k: "k \<le> durationInDays s"
  shows "\<exists>sp \<in> set (getSpansOn lib s (relativeDays D (- int k)) False). spanIncludesDay sp D"
proof -
  define S where "S = relativeDays D (- int k)"
  define dur where "dur = duration s * (case T (durationUnit s) of Some m \<Rightarrow> m | None \<Rightarrow> 0)"
  define t0 where "t0 = (if times_s s = [] then 0 else last (times_s s))"
  from dv have d: "durationInDays s = durationInDays (updateDurationInDays T s)"
    and st: "\<And>d. day_start lib d = d\<lparr>millis := 0\<rparr>"
    and wt: "\<And>d t. withTime lib d t = d\<lparr>millis := t\<rparr>"
    and ad: "\<And>d. day_time (day_add lib d (duration s) (durationUnit s)) = day_time d + dur"
    unfolding derivedDuration_def dur_def by blast+
  define sp where "sp = (if times_s s = [] then getFullSpan lib s S
                         else getTimeSpan lib s S (last (times_s s)))"
  have mem: "sp \<in> set (getSpansOn lib s S False)"
    unfolding sp_def getSpansOn_def isFullDay_def by simp
  have sn: "dayNumber (span_start sp) = dayNumber S"
    unfolding sp_def getFullSpan_def getTimeSpan_def Let_def by (simp add: st wt)
  have en: "day_time (span_end sp) = dayNumber S * MILLIS_IN_DAY + t0 + dur"
    unfolding sp_def getFullSpan_def getTimeSpan_def Let_def t0_def
    by (simp add: st wt ad, simp add: day_time_def)
  have SD: "dayNumber S = dayNumber D - int k" unfolding S_def by (simp add: relativeDays_def)
  have "spanIncludesDay sp D"
  proof (cases "k = 0")
    case True
    then show ?thesis unfolding spanIncludesDay_def sn SD by simp
  next
    case False
    then have "1 \<le> k" by simp
    from derived_reach[OF d this k] have "int k * MILLIS_IN_DAY < t0 + dur"
      unfolding t0_def dur_def .
    then have "dayNumber D * MILLIS_IN_DAY < day_time (span_end sp)"
      unfolding en SD by (simp add: algebra_simps)
    then show ?thesis unfolding spanIncludesDay_def sn SD by simp
  qed
  with mem show ?thesis unfolding S_def by blast
qed

lemma coversDay_iff_match_within:
  "coversDay F s D \<longleftrightarrow>
     (\<exists>k. k \<le> durationInDays s \<and> matchesDay F s (relativeDays D (- int k)))"
  using findStartingDay_None_iff[of F s D] by (simp add: coversDay_def qualifies_def)

text \<open>
  Claim C1, as amended. For a schedule with a derived duration, \<^verbatim>\<open>coversDay(D)\<close> is true
  iff there is a day S with \<^verbatim>\<open>S \<le> D\<close> and \<^verbatim>\<open>D - S \<le> durationInDays\<close> such that
  \<^verbatim>\<open>matchesDay(S)\<close> is true and the full span or a time span generated from S extends to
  include D. The day S is the day \<^verbatim>\<open>k\<close> days before D. The bound is inclusive.
\<close>

theorem coversDay_iff_start_within_reach:
  assumes dv: "derivedDuration DURATION_TO_MILLIS lib s"
  shows "coversDay (dayFields lib) s D \<longleftrightarrow>
     (\<exists>k. k \<le> durationInDays s \<and>
          matchesDay (dayFields lib) s (relativeDays D (- int k)) \<and>
          (\<exists>sp \<in> set (getSpansOn lib s (relativeDays D (- int k)) False).
             spanIncludesDay sp D))"
proof
  assume "coversDay (dayFields lib) s D"
  then obtain k where k: "k \<le> durationInDays s"
    "matchesDay (dayFields lib) s (relativeDays D (- int k))"
    unfolding coversDay_iff_match_within by blast
  from derived_span_reaches[OF dv k(1)] k show
    "\<exists>k. k \<le> durationInDays s \<and>
          matchesDay (dayFields lib) s (relativeDays D (- int k)) \<and>
          (\<exists>sp \<in> set (getSpansOn lib s (relativeDays D (- int k)) False).
             spanIncludesDay sp D)" by blast
next
  assume "\<exists>k. k \<le> durationInDays s \<and>
          matchesDay (dayFields lib) s (relativeDays D (- int k)) \<and>
          (\<exists>sp \<in> set (getSpansOn lib s (relativeDays D (- int k)) False).
             spanIncludesDay sp D)"
  then show "coversDay (dayFields lib) s D"
    unfolding coversDay_iff_match_within by blast
qed

text \<open>
  On the spec's scenario, two-day occurrences every Monday, the Tuesday (day 5) is
  covered by the span of the Monday, and the Wednesday (day 6) is not covered.
\<close>

lemma derivedDuration_everyMonday2: "derivedDuration exampleMillis exampleLib everyMonday2"
proof -
  have a: "durationInDays everyMonday2
      = durationInDays (updateDurationInDays exampleMillis everyMonday2)"
    by code_simp
  have u: "durationUnit everyMonday2 = ''days''" "duration everyMonday2 = 2"
    by (simp_all add: everyMonday2_def everyDay2_def updateDurationInDays_def everyDay_def Let_def)
  have b: "day_start exampleLib d = d\<lparr>millis := 0\<rparr>" for d
    by (simp add: exampleLib_def)
  have c: "withTime exampleLib d t = d\<lparr>millis := t\<rparr>" for d t
    by (simp add: exampleLib_def)
  have e: "day_time (day_add exampleLib d (duration everyMonday2) (durationUnit everyMonday2)) =
      day_time d + duration everyMonday2 *
        (case exampleMillis (durationUnit everyMonday2) of Some m \<Rightarrow> m | None \<Rightarrow> 0)" for d
    unfolding u by (simp add: exampleLib_def exampleMillis_def day_time_def relativeDays_def
        algebra_simps)
  show ?thesis unfolding derivedDuration_def using a b c e by blast
qed

lemma dayFields_exampleLib: "dayFields exampleLib = exampleFields"
  by (simp add: exampleLib_def)

theorem coversDay_iff_start_within_reach_witness:
  "derivedDuration exampleMillis exampleLib everyMonday2 \<and>
   coversDay exampleFields everyMonday2 (mkDay 5) \<and>
   (\<exists>k. k \<le> durationInDays everyMonday2 \<and>
        matchesDay exampleFields everyMonday2 (relativeDays (mkDay 5) (- int k)) \<and>
        (\<exists>sp \<in> set (getSpansOn exampleLib everyMonday2 (relativeDays (mkDay 5) (- int k)) False).
           spanIncludesDay sp (mkDay 5))) \<and>
   \<not> coversDay exampleFields everyMonday2 (mkDay 6)"
proof -
  have c5: "coversDay exampleFields everyMonday2 (mkDay 5)" by code_simp
  have c6: "\<not> coversDay exampleFields everyMonday2 (mkDay 6)" by code_simp
  note t = coversDay_iff_start_within_reach[OF derivedDuration_everyMonday2,
      unfolded dayFields_exampleLib]
  from c5 t[of "mkDay 5"] have "\<exists>k. k \<le> durationInDays everyMonday2 \<and>
        matchesDay exampleFields everyMonday2 (relativeDays (mkDay 5) (- int k)) \<and>
        (\<exists>sp \<in> set (getSpansOn exampleLib everyMonday2 (relativeDays (mkDay 5) (- int k)) False).
           spanIncludesDay sp (mkDay 5))" by blast
  with c5 c6 derivedDuration_everyMonday2 show ?thesis by blast
qed

text \<open>
  The claim as the spec words it, with \<^verbatim>\<open>D - S < durationInDays\<close>, fails on the spec's
  own scenario: with two-day occurrences every Monday, \<^verbatim>\<open>durationInDays\<close> is 1, the
  Tuesday (day 5) is covered through the Monday (day 4), but the only day S with
  \<^verbatim>\<open>D - S < 1\<close> is the Tuesday itself, which does not match. This holds whatever the span
  condition \<^verbatim>\<open>reaches\<close> is.
\<close>

theorem coversDay_strict_bound_counterexample:
  "coversDay exampleFields everyMonday2 (mkDay 5) \<and>
   (\<forall>reaches. \<not> coversDay_spec reaches exampleFields everyMonday2 (mkDay 5))"
proof
  show "coversDay exampleFields everyMonday2 (mkDay 5)"
    by code_simp
  have tue: "\<not> matchesDay exampleFields everyMonday2 (relativeDays (mkDay 5) (- int 0))"
    by code_simp
  show "\<forall>reaches. \<not> coversDay_spec reaches exampleFields everyMonday2 (mkDay 5)"
  proof (intro allI notI)
    fix reaches
    assume "coversDay_spec reaches exampleFields everyMonday2 (mkDay 5)"
    then obtain k where k: "k < durationInDays everyMonday2"
      "matchesDay exampleFields everyMonday2 (relativeDays (mkDay 5) (- int k))"
      unfolding coversDay_spec_def by blast
    from k(1) have "k = 0" by (simp add: everyMonday2_durationInDays)
    with k(2) tue show False by simp
  qed
qed

subsection \<open>C8: exclusion concerns the start day only\<close>

text \<open>
  Claim C8. A day D of the exclusion set never matches, whatever the frequency checks
  say. Exclusion constrains the start day only: when a day at most \<^verbatim>\<open>durationInDays\<close>
  days before D matches (so it is not excluded itself), \<^verbatim>\<open>coversDay(D)\<close> is true although
  D is excluded.
\<close>

theorem excluded_day_never_matches_yet_covered:
  "(isExcluded F s D \<longrightarrow> \<not> matchesDay F s D) \<and>
   (isExcluded F s D \<and> 1 \<le> k \<and> k \<le> durationInDays s \<and>
    matchesDay F s (relativeDays D (- int k))
      \<longrightarrow> \<not> isExcluded F s (relativeDays D (- int k)) \<and> coversDay F s D)"
proof (intro conjI impI)
  assume "isExcluded F s D"
  then show "\<not> matchesDay F s D"
    by (simp add: matchesDay_def isIncluded_iff)
next
  assume a: "isExcluded F s D \<and> 1 \<le> k \<and> k \<le> durationInDays s \<and>
    matchesDay F s (relativeDays D (- int k))"
  then show "\<not> isExcluded F s (relativeDays D (- int k))"
    by (simp add: matchesDay_def isIncluded_iff)
  from a have "qualifies F s D k" by (simp add: qualifies_def)
  then show "coversDay F s D"
    unfolding coversDay_def using findStartingDay_None_iff by blast
qed

theorem excluded_day_never_matches_yet_covered_witness:
  "isExcluded exampleFields everyDay2_without5 (mkDay 5) \<and>
   \<not> matchesDay exampleFields everyDay2_without5 (mkDay 5) \<and>
   \<not> isExcluded exampleFields everyDay2_without5 (mkDay 4) \<and>
   coversDay exampleFields everyDay2_without5 (mkDay 5)"
proof -
  have ex: "isExcluded exampleFields everyDay2_without5 (mkDay 5)"
    by code_simp
  have dur: "(1::nat) \<le> 1 \<and> 1 \<le> durationInDays everyDay2_without5"
    by (simp add: everyDay2_without5_def everyDay2_durationInDays)
  have m: "matchesDay exampleFields everyDay2_without5 (relativeDays (mkDay 5) (- int 1))"
    by code_simp
  have r: "relativeDays (mkDay 5) (- int 1) = mkDay 4"
    by (simp add: relativeDays_def mkDay_def)
  show ?thesis
    using excluded_day_never_matches_yet_covered[of exampleFields everyDay2_without5 "mkDay 5" 1]
      ex dur m r by simp
qed

subsection \<open>The bounded walk\<close>

lemma loop_exhausted:
  "\<not> dn < lookup \<Longrightarrow>
   iterateDays_loop F s max_n fwd onDay includeDay lookup dn d0 iterated st =
     \<lparr>visitedDays = [], emittedDays = [], finalState = st, stoppedBy = LookupExhausted\<rparr>"
  by (subst iterateDays_loop.simps) simp

lemma loop_nomatch:
  "dn < lookup \<Longrightarrow> \<not> matchesDay F s (stepped fwd includeDay dn d0) \<Longrightarrow>
   iterateDays_loop F s max_n fwd onDay includeDay lookup dn d0 iterated st =
     visit (stepped fwd includeDay dn d0)
       (iterateDays_loop F s max_n fwd onDay includeDay lookup (dn + 1)
          (stepped fwd includeDay dn d0) iterated st)"
  by (subst iterateDays_loop.simps) (simp add: stepped_def Let_def)

lemma loop_callback:
  "dn < lookup \<Longrightarrow> matchesDay F s (stepped fwd includeDay dn d0) \<Longrightarrow>
   onDay (stepped fwd includeDay dn d0) st = (False, st') \<Longrightarrow>
   iterateDays_loop F s max_n fwd onDay includeDay lookup dn d0 iterated st =
     \<lparr>visitedDays = [stepped fwd includeDay dn d0],
      emittedDays = [stepped fwd includeDay dn d0],
      finalState = st', stoppedBy = CallbackStop\<rparr>"
  by (subst iterateDays_loop.simps) (simp add: stepped_def Let_def)

lemma loop_max:
  "dn < lookup \<Longrightarrow> matchesDay F s (stepped fwd includeDay dn d0) \<Longrightarrow>
   onDay (stepped fwd includeDay dn d0) st = (True, st') \<Longrightarrow> max_n \<le> iterated + 1 \<Longrightarrow>
   iterateDays_loop F s max_n fwd onDay includeDay lookup dn d0 iterated st =
     \<lparr>visitedDays = [stepped fwd includeDay dn d0],
      emittedDays = [stepped fwd includeDay dn d0],
      finalState = st', stoppedBy = MaxReached\<rparr>"
  by (subst iterateDays_loop.simps) (simp add: stepped_def Let_def)

lemma loop_continue:
  "dn < lookup \<Longrightarrow> matchesDay F s (stepped fwd includeDay dn d0) \<Longrightarrow>
   onDay (stepped fwd includeDay dn d0) st = (True, st') \<Longrightarrow> \<not> max_n \<le> iterated + 1 \<Longrightarrow>
   iterateDays_loop F s max_n fwd onDay includeDay lookup dn d0 iterated st =
     emit (stepped fwd includeDay dn d0)
       (iterateDays_loop F s max_n fwd onDay includeDay lookup (dn + 1)
          (stepped fwd includeDay dn d0) (iterated + 1) st')"
  by (subst iterateDays_loop.simps) (simp add: stepped_def Let_def)

text \<open>An induction rule along the five branches of the loop body.\<close>

lemma loop_induct [case_names exhausted nomatch callback maxReached continue]:
  assumes ex: "\<And>dn d0 iterated st. \<not> dn < lookup \<Longrightarrow> P dn d0 iterated st"
    and nm: "\<And>dn d0 iterated st. dn < lookup \<Longrightarrow>
          \<not> matchesDay F s (stepped fwd includeDay dn d0) \<Longrightarrow>
          P (dn + 1) (stepped fwd includeDay dn d0) iterated st \<Longrightarrow> P dn d0 iterated st"
    and cb: "\<And>dn d0 iterated st st'. dn < lookup \<Longrightarrow>
          matchesDay F s (stepped fwd includeDay dn d0) \<Longrightarrow>
          onDay (stepped fwd includeDay dn d0) st = (False, st') \<Longrightarrow> P dn d0 iterated st"
    and mx: "\<And>dn d0 iterated st st'. dn < lookup \<Longrightarrow>
          matchesDay F s (stepped fwd includeDay dn d0) \<Longrightarrow>
          onDay (stepped fwd includeDay dn d0) st = (True, st') \<Longrightarrow>
          max_n \<le> iterated + 1 \<Longrightarrow> P dn d0 iterated st"
    and ct: "\<And>dn d0 iterated st st'. dn < lookup \<Longrightarrow>
          matchesDay F s (stepped fwd includeDay dn d0) \<Longrightarrow>
          onDay (stepped fwd includeDay dn d0) st = (True, st') \<Longrightarrow>
          \<not> max_n \<le> iterated + 1 \<Longrightarrow>
          P (dn + 1) (stepped fwd includeDay dn d0) (iterated + 1) st' \<Longrightarrow>
          P dn d0 iterated st"
  shows "P dn d0 iterated st"
proof -
  have "lookup - dn = n \<Longrightarrow> P dn d0 iterated st" for n dn d0 iterated st
  proof (induction n arbitrary: dn d0 iterated st)
    case (0 dn d0 iterated st)
    then have "\<not> dn < lookup" by simp
    then show ?case by (rule ex)
  next
    case (Suc n dn d0 iterated st)
    from Suc.prems have lt: "dn < lookup" by simp
    from Suc.prems have n: "lookup - (dn + 1) = n" by simp
    let ?d = "stepped fwd includeDay dn d0"
    show ?case
    proof (cases "matchesDay F s ?d")
      case False
      show ?thesis by (rule nm[OF lt False Suc.IH[OF n]])
    next
      case True
      obtain res st' where r: "onDay ?d st = (res, st')" by (cases "onDay ?d st")
      show ?thesis
      proof (cases res)
        case False
        with r have "onDay ?d st = (False, st')" by simp
        then show ?thesis by (rule cb[OF lt True])
      next
        case res: True
        with r have r': "onDay ?d st = (True, st')" by simp
        show ?thesis
        proof (cases "max_n \<le> iterated + 1")
          case True
          show ?thesis by (rule mx[OF lt \<open>matchesDay F s ?d\<close> r' True])
        next
          case False
          show ?thesis by (rule ct[OF lt True r' False Suc.IH[OF n]])
        qed
      qed
    qed
  qed
  then show ?thesis by simp
qed

lemma loop_length:
  "length (visitedDays (iterateDays_loop F s max_n fwd onDay includeDay lookup dn d0 iterated st))
     \<le> lookup - dn"
proof (induction dn d0 iterated st rule: loop_induct[where lookup = lookup and F = F and s = s
      and fwd = fwd and includeDay = includeDay and onDay = onDay and max_n = max_n])
  case (exhausted dn d0 iterated st)
  then show ?case by (simp add: loop_exhausted)
next
  case (nomatch dn d0 iterated st)
  then show ?case by (simp add: loop_nomatch visit_def)
next
  case (callback dn d0 iterated st st')
  then show ?case by (simp add: loop_callback)
next
  case (maxReached dn d0 iterated st st')
  then show ?case by (simp add: loop_max)
next
  case (continue dn d0 iterated st st')
  then show ?case by (simp add: loop_continue emit_def)
qed


lemma relativeDays_add: "relativeDays (relativeDays d a) b = relativeDays d (a + b)"
  by (simp add: relativeDays_def)

lemma stepped_relative:
  "stepped fwd includeDay dn d0 =
     relativeDays d0 ((if fwd then 1 else - 1) * (if \<not> includeDay \<or> dn > 0 then 1 else 0))"
  by (simp add: stepped_def relativeDays_def next_day_def prev_day_def)

lemma loop_days:
  "i < length (visitedDays (iterateDays_loop F s max_n fwd onDay includeDay lookup dn d0 iterated st))
   \<Longrightarrow> visitedDays (iterateDays_loop F s max_n fwd onDay includeDay lookup dn d0 iterated st) ! i =
       relativeDays d0 ((if fwd then 1 else - 1) *
                        (int i + (if \<not> includeDay \<or> dn > 0 then 1 else 0)))"
proof (induction dn d0 iterated st arbitrary: i rule: loop_induct[where lookup = lookup and F = F and s = s
      and fwd = fwd and includeDay = includeDay and onDay = onDay and max_n = max_n])
  case (exhausted dn d0 iterated st)
  then show ?case by (simp add: loop_exhausted)
next
  case (nomatch dn d0 iterated st)
  show ?case
  proof (cases i)
    case 0
    then show ?thesis using nomatch(1,2) by (simp add: loop_nomatch visit_def stepped_relative)
  next
    case (Suc j)
    with nomatch(4) nomatch(1,2) have "j < length (visitedDays (iterateDays_loop F s max_n fwd onDay
        includeDay lookup (dn + 1) (stepped fwd includeDay dn d0) iterated st))"
      by (simp add: loop_nomatch visit_def)
    from nomatch(3)[OF this] Suc nomatch(1,2) show ?thesis
      by (simp add: loop_nomatch visit_def stepped_relative relativeDays_add algebra_simps)
  qed
next
  case (callback dn d0 iterated st st')
  then show ?case by (simp add: loop_callback stepped_relative)
next
  case (maxReached dn d0 iterated st st')
  then show ?case by (simp add: loop_max stepped_relative)
next
  case (continue dn d0 iterated st st')
  show ?case
  proof (cases i)
    case 0
    then show ?thesis using continue(1-4) by (simp add: loop_continue emit_def stepped_relative)
  next
    case (Suc j)
    with continue(6) continue(1-4) have "j < length (visitedDays (iterateDays_loop F s max_n fwd onDay
        includeDay lookup (dn + 1) (stepped fwd includeDay dn d0) (iterated + 1) st'))"
      by (simp add: loop_continue emit_def)
    from continue(5)[OF this] Suc continue(1-4) show ?thesis
      by (simp add: loop_continue emit_def stepped_relative relativeDays_add algebra_simps)
  qed
qed

lemma loop_emitted:
  "emittedDays (iterateDays_loop F s max_n fwd onDay includeDay lookup dn d0 iterated st) =
     filter (matchesDay F s)
       (visitedDays (iterateDays_loop F s max_n fwd onDay includeDay lookup dn d0 iterated st))"
proof (induction dn d0 iterated st rule: loop_induct[where lookup = lookup and F = F and s = s
      and fwd = fwd and includeDay = includeDay and onDay = onDay and max_n = max_n])
  case (exhausted dn d0 iterated st)
  then show ?case by (simp add: loop_exhausted)
next
  case (nomatch dn d0 iterated st)
  then show ?case by (simp add: loop_nomatch visit_def)
next
  case (callback dn d0 iterated st st')
  then show ?case by (simp add: loop_callback)
next
  case (maxReached dn d0 iterated st st')
  then show ?case by (simp add: loop_max)
next
  case (continue dn d0 iterated st st')
  then show ?case by (simp add: loop_continue emit_def)
qed

lemma loop_exhausted_length:
  "stoppedBy (iterateDays_loop F s max_n fwd onDay includeDay lookup dn d0 iterated st) = LookupExhausted
   \<Longrightarrow> length (visitedDays (iterateDays_loop F s max_n fwd onDay includeDay lookup dn d0 iterated st))
       = lookup - dn"
proof (induction dn d0 iterated st rule: loop_induct[where lookup = lookup and F = F and s = s
      and fwd = fwd and includeDay = includeDay and onDay = onDay and max_n = max_n])
  case (exhausted dn d0 iterated st)
  then show ?case by (simp add: loop_exhausted)
next
  case (nomatch dn d0 iterated st)
  then show ?case by (simp add: loop_nomatch visit_def)
next
  case (callback dn d0 iterated st st')
  then show ?case by (simp add: loop_callback)
next
  case (maxReached dn d0 iterated st st')
  then show ?case by (simp add: loop_max)
next
  case (continue dn d0 iterated st st')
  then show ?case by (simp add: loop_continue emit_def)
qed

lemma loop_stops_on_match:
  "stoppedBy (iterateDays_loop F s max_n fwd onDay includeDay lookup dn d0 iterated st) \<noteq> LookupExhausted
   \<Longrightarrow> visitedDays (iterateDays_loop F s max_n fwd onDay includeDay lookup dn d0 iterated st) \<noteq> [] \<and>
       matchesDay F s
         (last (visitedDays (iterateDays_loop F s max_n fwd onDay includeDay lookup dn d0 iterated st)))"
proof (induction dn d0 iterated st rule: loop_induct[where lookup = lookup and F = F and s = s
      and fwd = fwd and includeDay = includeDay and onDay = onDay and max_n = max_n])
  case (exhausted dn d0 iterated st)
  then show ?case by (simp add: loop_exhausted)
next
  case (nomatch dn d0 iterated st)
  then show ?case by (simp add: loop_nomatch visit_def)
next
  case (callback dn d0 iterated st st')
  then show ?case by (simp add: loop_callback)
next
  case (maxReached dn d0 iterated st st')
  then show ?case by (simp add: loop_max)
next
  case (continue dn d0 iterated st st')
  then show ?case by (simp add: loop_continue emit_def)
qed


lemma visit_simps:
  "visitedDays (visit d r) = d # visitedDays r" "emittedDays (visit d r) = emittedDays r"
  "finalState (visit d r) = finalState r" "stoppedBy (visit d r) = stoppedBy r"
  by (simp_all add: visit_def)

lemma emit_simps:
  "visitedDays (emit d r) = d # visitedDays r" "emittedDays (emit d r) = d # emittedDays r"
  "finalState (emit d r) = finalState r" "stoppedBy (emit d r) = stoppedBy r"
  by (simp_all add: emit_def)

lemma last_True_Cons: "(True # rs \<noteq> [] \<and> \<not> last (True # rs)) \<longleftrightarrow> (rs \<noteq> [] \<and> \<not> last rs)"
  by (cases rs) simp_all

lemma butlast_True_Cons: "(\<forall>b \<in> set (butlast (True # rs)). b) \<longleftrightarrow> (\<forall>b \<in> set (butlast rs). b)"
  by (cases rs) simp_all

lemma loop_replay:
  "r = iterateDays_loop F s max_n fwd onDay includeDay lookup dn d0 iterated st \<Longrightarrow>
   replay onDay st (emittedDays r) = (rs, stf) \<Longrightarrow>
   finalState r = stf \<and> (\<forall>b \<in> set (butlast rs). b) \<and>
   (stoppedBy r = CallbackStop \<longleftrightarrow> rs \<noteq> [] \<and> \<not> last rs)"
proof (induction dn d0 iterated st arbitrary: r rs stf rule: loop_induct[where lookup = lookup and F = F and s = s
      and fwd = fwd and includeDay = includeDay and onDay = onDay and max_n = max_n])
  case (exhausted dn d0 iterated st)
  have r: "r = \<lparr>visitedDays = [], emittedDays = [], finalState = st, stoppedBy = LookupExhausted\<rparr>"
    using exhausted(1,2) by (simp add: loop_exhausted)
  have "rs = [] \<and> stf = st" using exhausted(3) unfolding r by simp
  then show ?case unfolding r by simp
next
  case (nomatch dn d0 iterated st)
  define r' where "r' = iterateDays_loop F s max_n fwd onDay includeDay lookup (dn + 1)
      (stepped fwd includeDay dn d0) iterated st"
  have r: "r = visit (stepped fwd includeDay dn d0) r'"
    using nomatch(1,2,4) by (simp add: loop_nomatch r'_def)
  have "replay onDay st (emittedDays r') = (rs, stf)"
    using nomatch(5) r by (simp add: visit_simps)
  from nomatch(3)[OF r'_def this] show ?case unfolding r visit_simps by blast
next
  case (callback dn d0 iterated st st')
  have r: "r = \<lparr>visitedDays = [stepped fwd includeDay dn d0],
      emittedDays = [stepped fwd includeDay dn d0], finalState = st', stoppedBy = CallbackStop\<rparr>"
    using callback(1-4) by (simp add: loop_callback)
  have "rs = [False] \<and> stf = st'" using callback(5,3) unfolding r by simp
  then show ?case unfolding r by simp
next
  case (maxReached dn d0 iterated st st')
  have r: "r = \<lparr>visitedDays = [stepped fwd includeDay dn d0],
      emittedDays = [stepped fwd includeDay dn d0], finalState = st', stoppedBy = MaxReached\<rparr>"
    using maxReached(1-5) by (simp add: loop_max)
  have "rs = [True] \<and> stf = st'" using maxReached(6,3) unfolding r by simp
  then show ?case unfolding r by simp
next
  case (continue dn d0 iterated st st')
  define r' where "r' = iterateDays_loop F s max_n fwd onDay includeDay lookup (dn + 1)
      (stepped fwd includeDay dn d0) (iterated + 1) st'"
  have r: "r = emit (stepped fwd includeDay dn d0) r'"
    using continue(1-4,6) by (simp add: loop_continue r'_def)
  obtain rs' stf' where rp: "replay onDay st' (emittedDays r') = (rs', stf')"
    by (cases "replay onDay st' (emittedDays r')")
  have eq: "rs = True # rs'" "stf = stf'"
    using continue(7) r rp continue(3) by (simp_all add: emit_simps)
  from continue(5)[OF r'_def rp] show ?case
    unfolding eq r emit_simps last_True_Cons butlast_True_Cons by blast
qed

lemma loop_max_count:
  "r = iterateDays_loop F s max_n fwd onDay includeDay lookup dn d0 iterated st \<Longrightarrow>
   replay onDay st (emittedDays r) = (rs, stf) \<Longrightarrow>
   iterated < max_n \<Longrightarrow>
   length (emittedDays r) \<le> max_n - iterated \<and>
   (stoppedBy r = MaxReached \<longleftrightarrow>
      length (emittedDays r) = max_n - iterated \<and> (\<forall>b \<in> set rs. b))"
proof (induction dn d0 iterated st arbitrary: r rs stf rule: loop_induct[where lookup = lookup and F = F and s = s
      and fwd = fwd and includeDay = includeDay and onDay = onDay and max_n = max_n])
  case (exhausted dn d0 iterated st)
  have r: "r = \<lparr>visitedDays = [], emittedDays = [], finalState = st, stoppedBy = LookupExhausted\<rparr>"
    using exhausted(1,2) by (simp add: loop_exhausted)
  show ?case using exhausted(4) unfolding r by simp
next
  case (nomatch dn d0 iterated st)
  define r' where "r' = iterateDays_loop F s max_n fwd onDay includeDay lookup (dn + 1)
      (stepped fwd includeDay dn d0) iterated st"
  have r: "r = visit (stepped fwd includeDay dn d0) r'"
    using nomatch(1,2,4) by (simp add: loop_nomatch r'_def)
  have "replay onDay st (emittedDays r') = (rs, stf)"
    using nomatch(5) r by (simp add: visit_simps)
  from nomatch(3)[OF r'_def this nomatch(6)] show ?case unfolding r visit_simps by blast
next
  case (callback dn d0 iterated st st')
  have r: "r = \<lparr>visitedDays = [stepped fwd includeDay dn d0],
      emittedDays = [stepped fwd includeDay dn d0], finalState = st', stoppedBy = CallbackStop\<rparr>"
    using callback(1-4) by (simp add: loop_callback)
  have "rs = [False]" using callback(5,3) unfolding r by simp
  then show ?case using callback(6) unfolding r by simp
next
  case (maxReached dn d0 iterated st st')
  have r: "r = \<lparr>visitedDays = [stepped fwd includeDay dn d0],
      emittedDays = [stepped fwd includeDay dn d0], finalState = st', stoppedBy = MaxReached\<rparr>"
    using maxReached(1-5) by (simp add: loop_max)
  have "rs = [True]" using maxReached(6,3) unfolding r by simp
  moreover have "max_n - iterated = 1" using maxReached(4,7) by arith
  ultimately show ?case unfolding r by simp
next
  case (continue dn d0 iterated st st')
  define r' where "r' = iterateDays_loop F s max_n fwd onDay includeDay lookup (dn + 1)
      (stepped fwd includeDay dn d0) (iterated + 1) st'"
  have r: "r = emit (stepped fwd includeDay dn d0) r'"
    using continue(1-4,6) by (simp add: loop_continue r'_def)
  obtain rs' stf' where rp: "replay onDay st' (emittedDays r') = (rs', stf')"
    by (cases "replay onDay st' (emittedDays r')")
  have eq: "rs = True # rs'" "stf = stf'"
    using continue(7) r rp continue(3) by (simp_all add: emit_simps)
  from continue(4) have lt: "iterated + 1 < max_n" by simp
  have ar: "max_n - iterated = Suc (max_n - (iterated + 1))" using lt by arith
  from continue(5)[OF r'_def rp lt] show ?case
    unfolding eq r emit_simps ar by simp
qed


lemma replay_length: "length (fst (replay onDay st ds)) = length ds"
proof (induction ds arbitrary: st)
  case Nil
  show ?case by simp
next
  case (Cons d ds)
  obtain res st' where a: "onDay d st = (res, st')" by (cases "onDay d st")
  obtain rs st'' where b: "replay onDay st' ds = (rs, st'')" by (cases "replay onDay st' ds")
  from Cons[of st'] b have "length rs = length ds" by simp
  then show ?case by (simp add: a b)
qed

lemma all_True_iff:
  assumes "\<forall>b \<in> set (butlast rs). b"
  shows "(\<forall>b \<in> set rs. b) \<longleftrightarrow> (rs = [] \<or> last rs)"
proof (cases "rs = []")
  case True then show ?thesis by simp
next
  case False
  have s1: "set (butlast rs @ [last rs]) = set (butlast rs) \<union> {last rs}" by simp
  have s2: "butlast rs @ [last rs] = rs" using False by simp
  have "set rs = set (butlast rs) \<union> {last rs}" using s1 unfolding s2 .
  with assms False show ?thesis by auto
qed

lemma walkedDay_start:
  "relativeDays d0 ((if fwd then 1 else - 1) * (int i + (if \<not> includeDay \<or> (0::nat) > 0 then 1 else 0)))
     = walkedDay fwd includeDay d0 i"
  by (simp add: walkedDay_def)

subsection \<open>C4: the bounded walk of iterateDays\<close>

text \<open>
  The walk of \<^verbatim>\<open>iterateDays\<close> always terminates (the loop is a total function,
  by the measure \<^verbatim>\<open>lookup - days\<close>) and visits at most \<^verbatim>\<open>lookup\<close> days, for every
  schedule, callback and \<^verbatim>\<open>max\<close>, also when nothing matches. The visited days are the
  consecutive days of the walk, the emitted days are the visited days that match, and
  the callback is run on them in order. For \<^verbatim>\<open>max \<ge> 1\<close> the walk stops exactly when the
  callback returns \<^verbatim>\<open>false\<close> (on the last emitted day, and on no earlier one), when
  \<^verbatim>\<open>max\<close> matches have been emitted, or when \<^verbatim>\<open>lookup\<close> days have been visited; a stop of
  the first two kinds happens on a matching day.
\<close>

theorem iterateDays_bounded_walk:
  assumes r: "r = iterateDays F s d0 max_n fwd onDay includeDay lookup st"
    and rs: "rs = fst (replay onDay st (emittedDays r))"
  shows "length (visitedDays r) \<le> lookup \<and>
     (\<forall>i < length (visitedDays r). visitedDays r ! i = walkedDay fwd includeDay d0 i) \<and>
     emittedDays r = filter (matchesDay F s) (visitedDays r) \<and>
     finalState r = snd (replay onDay st (emittedDays r)) \<and>
     (\<forall>b \<in> set (butlast rs). b) \<and>
     (stoppedBy r = CallbackStop \<longleftrightarrow> rs \<noteq> [] \<and> \<not> last rs) \<and>
     (1 \<le> max_n \<longrightarrow> length (emittedDays r) \<le> max_n) \<and>
     (1 \<le> max_n \<longrightarrow>
        (stoppedBy r = MaxReached \<longleftrightarrow> length (emittedDays r) = max_n \<and> (\<forall>b \<in> set rs. b))) \<and>
     (1 \<le> max_n \<longrightarrow>
        (stoppedBy r = LookupExhausted \<longleftrightarrow> length (emittedDays r) < max_n \<and> (\<forall>b \<in> set rs. b))) \<and>
     (stoppedBy r = LookupExhausted \<longrightarrow> length (visitedDays r) = lookup) \<and>
     (stoppedBy r \<noteq> LookupExhausted \<longrightarrow>
        visitedDays r \<noteq> [] \<and> matchesDay F s (last (visitedDays r)))"
proof -
  define r0 where "r0 = iterateDays_loop F s max_n fwd onDay includeDay lookup 0 d0 0 st"
  have r': "r = r0"
    using r by (simp add: iterateDays_def r0_def)
  obtain stf where rp: "replay onDay st (emittedDays r0) = (rs, stf)"
    using rs r' by (cases "replay onDay st (emittedDays r0)") simp
  have c1: "length (visitedDays r0) \<le> lookup"
    using loop_length[of F s max_n fwd onDay includeDay lookup 0 d0 0 st] by (simp add: r0_def)
  have c2: "\<forall>i < length (visitedDays r0). visitedDays r0 ! i = walkedDay fwd includeDay d0 i"
  proof (intro allI impI)
    fix i assume "i < length (visitedDays r0)"
    then have "visitedDays r0 ! i = relativeDays d0 ((if fwd then 1 else - 1) *
        (int i + (if \<not> includeDay \<or> (0::nat) > 0 then 1 else 0)))"
      unfolding r0_def by (rule loop_days)
    then show "visitedDays r0 ! i = walkedDay fwd includeDay d0 i"
      by (simp only: walkedDay_start)
  qed
  have c3: "emittedDays r0 = filter (matchesDay F s) (visitedDays r0)"
    unfolding r0_def by (rule loop_emitted)
  note lr = loop_replay[OF r0_def rp]
  have c4: "finalState r0 = snd (replay onDay st (emittedDays r0))"
    using lr by (simp add: rp)
  have c5: "\<forall>b \<in> set (butlast rs). b"
    using lr by blast
  have c6: "stoppedBy r0 = CallbackStop \<longleftrightarrow> rs \<noteq> [] \<and> \<not> last rs"
    using lr by blast
  have mx: "length (emittedDays r0) \<le> max_n \<and>
      (stoppedBy r0 = MaxReached \<longleftrightarrow> length (emittedDays r0) = max_n \<and> (\<forall>b \<in> set rs. b))"
    if "1 \<le> max_n"
  proof -
    from that have "0 < max_n" by simp
    from loop_max_count[OF r0_def rp this] show ?thesis by simp
  qed
  have c9: "stoppedBy r0 = LookupExhausted \<longleftrightarrow> length (emittedDays r0) < max_n \<and> (\<forall>b \<in> set rs. b)"
    if m: "1 \<le> max_n"
  proof -
    have e: "stoppedBy r0 = LookupExhausted \<longleftrightarrow>
        \<not> stoppedBy r0 = CallbackStop \<and> \<not> stoppedBy r0 = MaxReached"
      by (cases "stoppedBy r0") simp_all
    have a: "(\<forall>b \<in> set rs. b) \<longleftrightarrow> (rs = [] \<or> last rs)"
      by (rule all_True_iff[OF c5])
    have le: "length (emittedDays r0) \<le> max_n" using mx[OF m] by blast
    have mr: "stoppedBy r0 = MaxReached \<longleftrightarrow> length (emittedDays r0) = max_n \<and> (\<forall>b \<in> set rs. b)"
      using mx[OF m] by blast
    have lt: "length (emittedDays r0) < max_n \<longleftrightarrow> length (emittedDays r0) \<noteq> max_n"
      using le by arith
    show ?thesis unfolding e c6 mr lt a by blast
  qed
  have c10: "stoppedBy r0 = LookupExhausted \<longrightarrow> length (visitedDays r0) = lookup"
    using loop_exhausted_length[of F s max_n fwd onDay includeDay lookup 0 d0 0 st]
    by (simp add: r0_def)
  have c11: "stoppedBy r0 \<noteq> LookupExhausted \<longrightarrow>
        visitedDays r0 \<noteq> [] \<and> matchesDay F s (last (visitedDays r0))"
    using loop_stops_on_match[of F s max_n fwd onDay includeDay lookup 0 d0 0 st]
    by (simp add: r0_def)
  have c7: "1 \<le> max_n \<longrightarrow> length (emittedDays r0) \<le> max_n"
    using mx by blast
  have c8: "1 \<le> max_n \<longrightarrow>
        (stoppedBy r0 = MaxReached \<longleftrightarrow> length (emittedDays r0) = max_n \<and> (\<forall>b \<in> set rs. b))"
    using mx by blast
  have c9': "1 \<le> max_n \<longrightarrow>
        (stoppedBy r0 = LookupExhausted \<longleftrightarrow> length (emittedDays r0) < max_n \<and> (\<forall>b \<in> set rs. b))"
    using c9 by blast
  show ?thesis
    unfolding r'
    by (intro conjI) (rule c1 c2 c3 c4 c5 c6 c7 c8 c9' c10 c11)+
qed

text \<open>
  Two Mondays from day 0: the walk stops on day 11 after two matches. A walk over days
  that never match runs for all 366 days.
\<close>

lemma twoMondays_stop: "stoppedBy twoMondays = MaxReached"
  unfolding twoMondays_def by code_simp

lemma noMatchWalk_stop: "stoppedBy noMatchWalk = LookupExhausted"
  unfolding noMatchWalk_def by code_simp

theorem iterateDays_bounded_walk_witness:
  "length (visitedDays twoMondays) \<le> 366 \<and> length (emittedDays twoMondays) = 2 \<and>
   stoppedBy twoMondays = MaxReached \<and>
   length (visitedDays noMatchWalk) = 366 \<and> stoppedBy noMatchWalk = LookupExhausted"
proof -
  have one: "(1::nat) \<le> 2" by simp
  note a = iterateDays_bounded_walk[OF twoMondays_def refl]
  note b = iterateDays_bounded_walk[OF noMatchWalk_def refl]
  show ?thesis
    using a b one twoMondays_stop noMatchWalk_stop by blast
qed

text \<open>
  Claim C4 has the walk stop when \<^verbatim>\<open>max\<close> matches have been emitted, for every \<^verbatim>\<open>max\<close>.
  At \<^verbatim>\<open>max = 0\<close> the code does not: the test \<^verbatim>\<open>++iterated >= max\<close> only runs after a
  match has been handed to the callback, so one match is emitted before the walk stops.
  \<^verbatim>\<open>nextDays(day, 0)\<close> returns one day, the same as \<^verbatim>\<open>nextDays(day, 1)\<close>, whereas a
  lookup of 0 visits no day at all.
\<close>

theorem iterateDays_max_zero_emits_one:
  "length (emittedDays (iterateDays exampleFields everyDay (mkDay 0) 0 True pushDay False 366 [])) = 1 \<and>
   nextDays exampleFields everyDay (mkDay 0) 0 False 366 = [mkDay 1] \<and>
   nextDays exampleFields everyDay (mkDay 0) 1 False 366 = [mkDay 1] \<and>
   visitedDays (iterateDays exampleFields everyDay (mkDay 0) 1 True pushDay False 0 []) = []"
  by code_simp

subsection \<open>C5: the next day of an unconstrained schedule\<close>

lemma unconstrained_matchesDay: "unconstrained s \<Longrightarrow> matchesDay F s d"
  by (simp add: unconstrained_def matchesDay_def isIncluded_def truthy_def matchesSpan_def)

text \<open>
  Claim C5. For a schedule with no exclusions, no bounds and only \<^verbatim>\<open>Always\<close> checks,
  iterating forward from day X with \<^verbatim>\<open>max = 1\<close>, \<^verbatim>\<open>includeDay = false\<close> and the default
  lookahead of 366 emits exactly the day after X, whatever the callback does, and
  \<^verbatim>\<open>nextDay(X)\<close> returns that day.
\<close>

theorem nextDay_of_unconstrained:
  assumes u: "unconstrained s"
  shows "nextDay F s X False 366 = Some (next_day X) \<and>
         nextDays F s X 1 False 366 = [next_day X] \<and>
         emittedDays (iterateDays F s X 1 True onDay False 366 st) = [next_day X]"
proof -
  have st: "stepped True False 0 X = next_day X" by (simp add: stepped_def)
  have m: "matchesDay F s (stepped True False 0 X)"
    using u by (rule unconstrained_matchesDay)
  have lt: "(0::nat) < 366" by simp
  have a: "nextDay F s X False 366 = Some (next_day X)"
    unfolding nextDay_def iterateDays_def
    by (subst loop_callback[where onDay = setNext and st = None and st' = "Some (next_day X)", OF lt m])
      (simp_all add: setNext_def st)
  have b: "nextDays F s X 1 False 366 = [next_day X]"
    unfolding nextDays_def iterateDays_def
    by (subst loop_max[where onDay = pushDay and st = "[]" and st' = "[next_day X]", OF lt m])
      (simp_all add: pushDay_def st)
  obtain res st' where r: "onDay (stepped True False 0 X) st = (res, st')"
    by (cases "onDay (stepped True False 0 X) st")
  have c: "emittedDays (iterateDays F s X 1 True onDay False 366 st) = [next_day X]"
  proof (cases res)
    case True
    with r have "onDay (stepped True False 0 X) st = (True, st')" by simp
    from loop_max[where onDay = onDay and st = st and max_n = 1 and iterated = 0, OF lt m this]
    show ?thesis by (simp add: iterateDays_def st)
  next
    case False
    with r have "onDay (stepped True False 0 X) st = (False, st')" by simp
    from loop_callback[where onDay = onDay and st = st and max_n = 1 and iterated = 0, OF lt m this]
    show ?thesis by (simp add: iterateDays_def st)
  qed
  show ?thesis using a b c by simp
qed

lemma unconstrained_everyDay: "unconstrained everyDay"
  by (simp add: unconstrained_def everyDay_def)

theorem nextDay_of_unconstrained_witness:
  "unconstrained everyDay \<and>
   nextDay exampleFields everyDay (mkDay 0) False 366 = Some (mkDay 1)"
proof -
  have "next_day (mkDay 0) = mkDay 1" by (simp add: next_day_def mkDay_def)
  then show ?thesis
    using nextDay_of_unconstrained[OF unconstrained_everyDay, of exampleFields "mkDay 0" pushDay "[]"]
      unconstrained_everyDay by simp
qed

section \<open>Properties of the calendar\<close>

subsection \<open>C9: duplicate registrations\<close>


lemma findSchedule_loop_Some:
  "findSchedule_loop x es = Some e \<Longrightarrow>
     e \<in> set es \<and> (self e = x \<or> schedule_id e = x \<or> event e = x)"
  by (induction es) (auto split: if_splits)





subsection \<open>C10: event ids\<close>

lemma timeEvents_length: "length (timeEvents lib eid ev s d0 i ts) = length ts"
  by (induction ts arbitrary: i) simp_all

lemma timeEvents_id:
  "t < length ts \<Longrightarrow> id_e (timeEvents lib eid ev s d0 i ts ! t) = eid + i + t"
proof (induction ts arbitrary: i t)
  case Nil
  then show ?case by simp
next
  case (Cons a ts)
  show ?case
  proof (cases t)
    case 0
    then show ?thesis by (simp add: newCalendarEvent_def)
  next
    case (Suc u)
    with Cons.prems have "u < length ts" by simp
    from Cons.IH[OF this, of "i + 1"] Suc show ?thesis by simp
  qed
qed

lemma timeEvents_event:
  "t < length ts \<Longrightarrow> event_e (timeEvents lib eid ev s d0 i ts ! t) = ev"
proof (induction ts arbitrary: i t)
  case Nil
  then show ?case by simp
next
  case (Cons a ts)
  show ?case
  proof (cases t)
    case 0
    then show ?thesis by (simp add: newCalendarEvent_def)
  next
    case (Suc u)
    with Cons.prems have "u < length ts" by simp
    from Cons.IH[OF this, of "i + 1"] Suc show ?thesis by simp
  qed
qed

lemma eventsForDay_loop_concat:
  "eventsForDay_loop lib d0 getTimes covers i es =
     concat (map (\<lambda>k. entryEvents lib d0 getTimes covers (i + k) (es ! k)) [0..<length es])"
proof (induction es arbitrary: i)
  case Nil
  show ?case by simp
next
  case (Cons e es)
  have "map (\<lambda>k. entryEvents lib d0 getTimes covers (i + k) ((e # es) ! k)) [0..<length (e # es)]
      = entryEvents lib d0 getTimes covers i e
        # map (\<lambda>k. entryEvents lib d0 getTimes covers (i + 1 + k) (es ! k)) [0..<length es]"
    by (simp add: upt_conv_Cons map_Suc_upt[symmetric] del: upt_Suc)
  then show ?case using Cons.IH[of "i + 1"] by simp
qed

lemma entryEvents_listTimes_length:
  "length (entryEvents lib d0 True covers k entry) \<le> length (entrySpans lib (schedule entry) d0 covers)"
  by (simp add: entryEvents_def entrySpans_def Let_def timeEvents_length)

lemma entryEvents_listTimes_event:
  "t < length (entryEvents lib d0 True covers k entry) \<Longrightarrow>
   event_e (entryEvents lib d0 True covers k entry ! t) = event entry"
  by (auto simp add: entryEvents_def Let_def timeEvents_event timeEvents_length split: if_splits)

lemma entryEvents_listTimes_id:
  "t < length (entryEvents lib d0 True covers k entry) \<Longrightarrow>
   id_e (entryEvents lib d0 True covers k entry ! t) = k * MAX_EVENTS_PER_DAY lib + t"
  by (auto simp add: entryEvents_def Let_def timeEvents_id timeEvents_length split: if_splits)

text \<open>
  Claim C10. With \<^verbatim>\<open>listTimes\<close>, the events of \<^verbatim>\<open>eventsForDay\<close> are the events of the
  registrations in registration order, and the event at position \<^verbatim>\<open>t\<close> among those of
  the registration at index \<^verbatim>\<open>k\<close> has id \<^verbatim>\<open>k * MAX_EVENTS_PER_DAY + t\<close> and carries that
  registration's payload. When the schedule produces fewer spans for the day than
  \<^verbatim>\<open>MAX_EVENTS_PER_DAY\<close>, the \<^verbatim>\<open>scheduleId\<close> of the event is \<^verbatim>\<open>k\<close>.
\<close>

theorem eventsForDay_ids:
  "eventsForDay lib c d0 True covers =
     concat (map (\<lambda>k. entryEvents lib d0 True covers k (schedules c ! k))
               [0..<length (schedules c)]) \<and>
   (k < length (schedules c) \<and>
    t < length (entryEvents lib d0 True covers k (schedules c ! k))
      \<longrightarrow> id_e (entryEvents lib d0 True covers k (schedules c ! k) ! t)
            = k * MAX_EVENTS_PER_DAY lib + t \<and>
          event_e (entryEvents lib d0 True covers k (schedules c ! k) ! t)
            = event (schedules c ! k) \<and>
          (length (entrySpans lib (schedule (schedules c ! k)) d0 covers) < MAX_EVENTS_PER_DAY lib
             \<longrightarrow> scheduleId lib (entryEvents lib d0 True covers k (schedules c ! k) ! t) = k))"
proof (intro conjI impI)
  show "eventsForDay lib c d0 True covers =
     concat (map (\<lambda>k. entryEvents lib d0 True covers k (schedules c ! k))
               [0..<length (schedules c)])"
    using eventsForDay_loop_concat[of lib d0 True covers 0 "schedules c"]
    by (simp add: eventsForDay_def)
next
  assume a: "k < length (schedules c) \<and>
    t < length (entryEvents lib d0 True covers k (schedules c ! k))"
  then show "id_e (entryEvents lib d0 True covers k (schedules c ! k) ! t)
            = k * MAX_EVENTS_PER_DAY lib + t"
    by (simp add: entryEvents_listTimes_id)
next
  assume a: "k < length (schedules c) \<and>
    t < length (entryEvents lib d0 True covers k (schedules c ! k))"
  assume b: "length (entrySpans lib (schedule (schedules c ! k)) d0 covers) < MAX_EVENTS_PER_DAY lib"
  have "t < MAX_EVENTS_PER_DAY lib"
    using a b entryEvents_listTimes_length[of lib d0 covers k "schedules c ! k"] by arith
  moreover have "id_e (entryEvents lib d0 True covers k (schedules c ! k) ! t)
            = k * MAX_EVENTS_PER_DAY lib + t"
    using a by (simp add: entryEvents_listTimes_id)
  ultimately show "scheduleId lib (entryEvents lib d0 True covers k (schedules c ! k) ! t) = k"
    by (simp add: scheduleId_def)
next
  assume a: "k < length (schedules c) \<and>
    t < length (entryEvents lib d0 True covers k (schedules c ! k))"
  then show "event_e (entryEvents lib d0 True covers k (schedules c ! k) ! t) = event (schedules c ! k)"
    by (simp add: entryEvents_listTimes_event)
qed


theorem eventsForDay_ids_witness:
  "map id_e (eventsForDay exampleLib exampleCalendar (mkDay 5) True True) = [0, 24, 25] \<and>
   id_e (entryEvents exampleLib (mkDay 5) True True 1 registrationB ! 1) = 25 \<and>
   scheduleId exampleLib (entryEvents exampleLib (mkDay 5) True True 1 registrationB ! 1) = 1"
proof -
  have k: "(1::nat) < length (schedules exampleCalendar)"
    and e: "schedules exampleCalendar ! 1 = registrationB"
    by (simp_all add: exampleCalendar_def)
  have t: "(1::nat) < length (entryEvents exampleLib (mkDay 5) True True 1 registrationB)"
    by code_simp
  have sp: "length (entrySpans exampleLib (schedule registrationB) (mkDay 5) True)
      < MAX_EVENTS_PER_DAY exampleLib"
    by code_simp
  have m: "MAX_EVENTS_PER_DAY exampleLib = 24" by (simp add: exampleLib_def)
  have ids: "map id_e (eventsForDay exampleLib exampleCalendar (mkDay 5) True True) = [0, 24, 25]"
    by code_simp
  show ?thesis
    using eventsForDay_ids[of exampleLib exampleCalendar "mkDay 5" True 1 1] k e t sp m ids
    by simp
qed

subsection \<open>The cell loop of resetDays\<close>

lemma resetDays_loop_step:
  "resetDays_loop lib sp total_n i current st =
     (if i < total_n
      then resetDays_loop lib sp total_n (i + 1) (next_day current) (resetStep lib sp i current st)
      else st)"
  by (cases st) (simp add: resetDays_loop.simps[of lib sp total_n i current] resetStep_def)

lemma resetStep_length:
  "i \<le> length ds \<Longrightarrow> length (fst (resetStep lib sp i current (ds, n))) = max (length ds) (i + 1)"
  by (auto simp: resetStep_def)

lemma resetStep_other:
  "j \<noteq> i \<Longrightarrow> j < length ds \<Longrightarrow> fst (resetStep lib sp i current (ds, n)) ! j = ds ! j"
  by (auto simp: resetStep_def nth_append)

lemma resetStep_counter: "n \<le> snd (resetStep lib sp i current (ds, n))"
  by (auto simp: resetStep_def)

lemma resetStep_at:
  "i \<le> length ds \<Longrightarrow>
   cellFor lib sp ds n (snd (resetStep lib sp i current (ds, n))) i current
     (fst (resetStep lib sp i current (ds, n)) ! i)"
  by (auto simp: resetStep_def cellFor_def nth_append)

lemma cellFor_mono:
  "cellFor lib sp ds lo hi j target cell \<Longrightarrow> lo' \<le> lo \<Longrightarrow> hi \<le> hi' \<Longrightarrow>
   cellFor lib sp ds lo' hi' j target cell"
  unfolding cellFor_def by (auto split: if_splits intro: order_trans less_le_trans)

lemma resetDays_loop_props:
  "i \<le> length ds \<Longrightarrow>
   resetDays_loop lib sp total_n i current (ds, n) = (rs, m) \<Longrightarrow>
   length rs = max (length ds) total_n \<and> n \<le> m \<and>
   (\<forall>j. j < i \<longrightarrow> rs ! j = ds ! j) \<and>
   (\<forall>j. total_n \<le> j \<and> j < length ds \<longrightarrow> rs ! j = ds ! j) \<and>
   (\<forall>j. i \<le> j \<and> j < total_n \<longrightarrow>
      cellFor lib sp ds n m j (relativeDays current (int (j - i))) (rs ! j))"
proof (induction "total_n - i" arbitrary: i current ds n)
  case 0
  then have "\<not> i < total_n" by simp
  with 0 have "rs = ds \<and> m = n" by (simp add: resetDays_loop_step)
  with 0 show ?case by auto
next
  case (Suc x)
  then have lt: "i < total_n" by simp
  obtain ds' n' where st: "resetStep lib sp i current (ds, n) = (ds', n')"
    by (cases "resetStep lib sp i current (ds, n)")
  have len': "length ds' = max (length ds) (i + 1)"
    using resetStep_length[OF Suc.prems(1), of lib sp current n] st by simp
  have other: "\<And>j. j \<noteq> i \<Longrightarrow> j < length ds \<Longrightarrow> ds' ! j = ds ! j"
    using resetStep_other[of _ i ds lib sp current n] st by simp
  have cnt: "n \<le> n'" using resetStep_counter[of n lib sp i current ds] st by simp
  have at: "cellFor lib sp ds n n' i current (ds' ! i)"
    using resetStep_at[OF Suc.prems(1), of lib sp n current] st by simp
  have rec: "resetDays_loop lib sp total_n (i + 1) (next_day current) (ds', n') = (rs, m)"
    using Suc.prems(2) lt st by (simp add: resetDays_loop_step[of lib sp total_n i])
  have x: "x = total_n - (i + 1)" using Suc.hyps(2) by simp
  have le': "i + 1 \<le> length ds'" using len' by simp
  note IH = Suc.hyps(1)[OF x le' rec]
  have A: "length rs = max (length ds) total_n" using IH len' lt by auto
  have E: "n \<le> m" using IH cnt by auto
  have B: "\<forall>j. j < i \<longrightarrow> rs ! j = ds ! j"
  proof (intro allI impI)
    fix j assume j: "j < i"
    then have "rs ! j = ds' ! j" using IH by auto
    moreover have "ds' ! j = ds ! j" using other[of j] j Suc.prems(1) by simp
    ultimately show "rs ! j = ds ! j" by simp
  qed
  have C: "\<forall>j. total_n \<le> j \<and> j < length ds \<longrightarrow> rs ! j = ds ! j"
  proof (intro allI impI)
    fix j assume j: "total_n \<le> j \<and> j < length ds"
    then have "j < length ds'" using len' by auto
    with j have "rs ! j = ds' ! j" using IH by auto
    moreover have "ds' ! j = ds ! j" using other[of j] j lt by simp
    ultimately show "rs ! j = ds ! j" by simp
  qed
  have D: "\<forall>j. i \<le> j \<and> j < total_n \<longrightarrow>
      cellFor lib sp ds n m j (relativeDays current (int (j - i))) (rs ! j)"
  proof (intro allI impI)
    fix j assume j: "i \<le> j \<and> j < total_n"
    show "cellFor lib sp ds n m j (relativeDays current (int (j - i))) (rs ! j)"
    proof (cases "j = i")
      case True
      have "rs ! i = ds' ! i" using IH by auto
      moreover have "relativeDays current (int (i - i)) = current"
        by (simp add: relativeDays_def)
      moreover have "cellFor lib sp ds n m i current (ds' ! i)"
        using cellFor_mono[OF at order_refl] IH by auto
      ultimately show ?thesis using True by simp
    next
      case False
      with j have j': "i + 1 \<le> j \<and> j < total_n" by simp
      then have c: "cellFor lib sp ds' n' m j
          (relativeDays (next_day current) (int (j - (i + 1)))) (rs ! j)"
        using IH by blast
      have t: "relativeDays (next_day current) (int (j - (i + 1))) = relativeDays current (int (j - i))"
        using j' by (simp add: relativeDays_def next_day_def)
      have l: "j < length ds' \<longleftrightarrow> j < length ds" using len' j' by auto
      have o: "j < length ds \<Longrightarrow> ds' ! j = ds ! j" using other[of j] False by simp
      have "cellFor lib sp ds n' m j (relativeDays current (int (j - i))) (rs ! j)"
        using c unfolding cellFor_def t l using o by (auto split: if_splits)
      then show ?thesis using cellFor_mono[OF _ cnt order_refl] by blast
    qed
  qed
  show ?case using A B C D E by blast
qed

lemma resetDays_loop_fixpoint:
  "length ds = total_n \<Longrightarrow>
   (\<forall>j. i \<le> j \<and> j < total_n \<longrightarrow>
      sameDay (ds ! j) (relativeDays current (int (j - i))) \<and>
      markInCalendar lib sp (ds ! j) = ds ! j) \<Longrightarrow>
   resetDays_loop lib sp total_n i current (ds, n) = (ds, n)"
proof (induction "total_n - i" arbitrary: i current)
  case 0
  then show ?case by (simp add: resetDays_loop_step)
next
  case (Suc x)
  then have lt: "i < total_n" by simp
  have here: "sameDay (ds ! i) current \<and> markInCalendar lib sp (ds ! i) = ds ! i"
    using Suc.prems(2) lt by (auto simp: relativeDays_def)
  have st: "resetStep lib sp i current (ds, n) = (ds, n)"
    using here lt Suc.prems(1) by (simp add: resetStep_def)
  have x: "x = total_n - (i + 1)" using Suc.hyps(2) by simp
  have nxt: "\<forall>j. i + 1 \<le> j \<and> j < total_n \<longrightarrow>
      sameDay (ds ! j) (relativeDays (next_day current) (int (j - (i + 1)))) \<and>
      markInCalendar lib sp (ds ! j) = ds ! j"
  proof (intro allI impI)
    fix j assume j: "i + 1 \<le> j \<and> j < total_n"
    have t: "relativeDays (next_day current) (int (j - (i + 1))) = relativeDays current (int (j - i))"
      using j by (simp add: relativeDays_def next_day_def)
    from j have "i \<le> j \<and> j < total_n" by simp
    with Suc.prems(2) show "sameDay (ds ! j) (relativeDays (next_day current) (int (j - (i + 1)))) \<and>
      markInCalendar lib sp (ds ! j) = ds ! j"
      unfolding t by blast
  qed
  from Suc.hyps(1)[OF x Suc.prems(1) nxt] lt st show ?case
    by (simp add: resetDays_loop_step[of lib sp total_n i])
qed


lemma markInCalendar_simps:
  "dayNumber (markInCalendar lib sp d) = dayNumber d"
  "millis (markInCalendar lib sp d) = millis d"
  "oid (markInCalendar lib sp d) = oid d"
  "asDay (markInCalendar lib sp d) = asDay d"
  "inCalendar (markInCalendar lib sp d) = span_contains lib sp (asDay d)"
  by (simp_all add: markInCalendar_def asDay_def)

lemma newCalendarDay_simps:
  "dayNumber (newCalendarDay k d) = dayNumber d"
  "millis (newCalendarDay k d) = millis d"
  "oid (newCalendarDay k d) = k"
  "asDay (newCalendarDay k d) = d"
  by (simp_all add: newCalendarDay_def asDay_def)

lemma sameDay_simps:
  "sameDay (markInCalendar lib sp d) x = sameDay d x"
  "sameDay (newCalendarDay k y) x = sameDay y x"
  "sameDay (y::Day) y"
  by (simp_all add: sameDay_def markInCalendar_simps newCalendarDay_simps)

text \<open>The outcome of \<^verbatim>\<open>resetDays\<close> in terms of its loop.\<close>

lemma resetDays_outcome:
  assumes "total_n = max (minimumSize c) (span_days lib (filled (resetFilled lib c)))"
  obtains rs m where
    "resetDays_loop lib (span c) total_n 0 (span_start (filled (resetFilled lib c)))
       (days c, nextOid c) = (rs, m)"
    "resetDays lib c =
       (resetFilled lib c)\<lparr>days := (if length rs > total_n then take total_n rs else rs),
                             nextOid := m\<rparr>"
proof -
  obtain rs m where l: "resetDays_loop lib (span c) total_n 0 (span_start (filled (resetFilled lib c)))
       (days c, nextOid c) = (rs, m)"
    by (cases "resetDays_loop lib (span c) total_n 0 (span_start (filled (resetFilled lib c)))
       (days c, nextOid c)")
  have f: "span (resetFilled lib c) = span c" "days (resetFilled lib c) = days c"
    "nextOid (resetFilled lib c) = nextOid c" "minimumSize (resetFilled lib c) = minimumSize c"
    by (simp_all add: resetFilled_def)
  have "resetDays lib c =
       (resetFilled lib c)\<lparr>days := (if length rs > total_n then take total_n rs else rs),
                             nextOid := m\<rparr>"
    unfolding resetDays_def Let_def f using l assms by simp
  with l show ?thesis by (rule that)
qed

subsection \<open>C7: resetDays\<close>

text \<open>
  Claim C7. After \<^verbatim>\<open>resetDays\<close> the cell sequence has exactly
  \<^verbatim>\<open>max(minimumSize, days of the padded span)\<close> cells, so excess cells are trimmed; the
  cell at position \<^verbatim>\<open>i\<close> is on the \<^verbatim>\<open>i\<close>-th day counted from the start of the padded
  span; where the cell that was at position \<^verbatim>\<open>i\<close> before is on that day, it is kept, the
  same object with \<^verbatim>\<open>inCalendar\<close> updated; otherwise the position holds a newly
  allocated cell for that day. As every cell that existed before was allocated earlier,
  the object at a position is the previous one exactly when the previous one was on
  the target day.
\<close>

theorem resetDays_cells:
  assumes c': "c' = resetDays lib c"
    and total: "total_n = max (minimumSize c) (span_days lib (filled c'))"
    and target: "target = (\<lambda>i. relativeDays (span_start (filled c')) (int i))"
  shows "filled c' = filled (resetFilled lib c) \<and>
     length (days c') = total_n \<and>
     (\<forall>i < total_n. sameDay (days c' ! i) (target i)) \<and>
     (\<forall>i < total_n. i < length (days c) \<and> sameDay (days c ! i) (target i)
        \<longrightarrow> days c' ! i = markInCalendar lib (span c) (days c ! i) \<and>
            oid (days c' ! i) = oid (days c ! i)) \<and>
     (\<forall>i < total_n. \<not> (i < length (days c) \<and> sameDay (days c ! i) (target i))
        \<longrightarrow> nextOid c \<le> oid (days c' ! i) \<and> oid (days c' ! i) < nextOid c' \<and>
            asDay (days c' ! i) = target i) \<and>
     ((\<forall>d \<in> set (days c). oid d < nextOid c)
        \<longrightarrow> (\<forall>i < total_n. i < length (days c)
              \<longrightarrow> (oid (days c' ! i) = oid (days c ! i) \<longleftrightarrow> sameDay (days c ! i) (target i))))"
proof -
  define t0 where "t0 = max (minimumSize c) (span_days lib (filled (resetFilled lib c)))"
  obtain rs m where loop: "resetDays_loop lib (span c) t0 0 (span_start (filled (resetFilled lib c)))
       (days c, nextOid c) = (rs, m)"
    and out: "resetDays lib c =
       (resetFilled lib c)\<lparr>days := (if length rs > t0 then take t0 rs else rs), nextOid := m\<rparr>"
    using resetDays_outcome[OF t0_def] by blast
  have fl: "filled c' = filled (resetFilled lib c)" unfolding c' out by simp
  have tt: "total_n = t0" unfolding total fl t0_def by simp
  have ds: "days c' = (if length rs > t0 then take t0 rs else rs)" unfolding c' out by simp
  have no: "nextOid c' = m" unfolding c' out by simp
  have tg: "target i = relativeDays (span_start (filled (resetFilled lib c))) (int (i - 0))" for i
    unfolding target fl by simp
  note P = resetDays_loop_props[OF le0 loop]
  have len: "length rs = max (length (days c)) t0" using P by blast
  have cell: "cellFor lib (span c) (days c) (nextOid c) m i (target i) (rs ! i)" if "i < t0" for i
    using P that unfolding tg by blast
  have nth: "days c' ! i = rs ! i" if "i < t0" for i
    unfolding ds using that by simp
  have L: "length (days c') = total_n"
    unfolding ds tt using len by auto
  have S: "\<forall>i < total_n. sameDay (days c' ! i) (target i)"
  proof (intro allI impI)
    fix i assume "i < total_n"
    then have i: "i < t0" by (simp add: tt)
    from cell[OF i] show "sameDay (days c' ! i) (target i)"
      unfolding nth[OF i] cellFor_def by (auto simp: sameDay_simps split: if_splits)
  qed
  have R: "\<forall>i < total_n. i < length (days c) \<and> sameDay (days c ! i) (target i)
        \<longrightarrow> days c' ! i = markInCalendar lib (span c) (days c ! i) \<and>
            oid (days c' ! i) = oid (days c ! i)"
  proof (intro allI impI)
    fix i assume "i < total_n" and a: "i < length (days c) \<and> sameDay (days c ! i) (target i)"
    then have i: "i < t0" by (simp add: tt)
    from cell[OF i] a have "rs ! i = markInCalendar lib (span c) (days c ! i)"
      unfolding cellFor_def by simp
    then show "days c' ! i = markInCalendar lib (span c) (days c ! i) \<and>
            oid (days c' ! i) = oid (days c ! i)"
      unfolding nth[OF i] by (simp add: markInCalendar_simps)
  qed
  have N: "\<forall>i < total_n. \<not> (i < length (days c) \<and> sameDay (days c ! i) (target i))
        \<longrightarrow> nextOid c \<le> oid (days c' ! i) \<and> oid (days c' ! i) < nextOid c' \<and>
            asDay (days c' ! i) = target i"
  proof (intro allI impI)
    fix i assume "i < total_n" and a: "\<not> (i < length (days c) \<and> sameDay (days c ! i) (target i))"
    then have i: "i < t0" by (simp add: tt)
    from cell[OF i] a obtain k where k: "nextOid c \<le> k" "k < m"
      "rs ! i = markInCalendar lib (span c) (newCalendarDay k (target i))"
      unfolding cellFor_def by auto
    show "nextOid c \<le> oid (days c' ! i) \<and> oid (days c' ! i) < nextOid c' \<and>
            asDay (days c' ! i) = target i"
      unfolding nth[OF i] no k(3) using k(1,2)
      by (simp add: markInCalendar_simps newCalendarDay_simps)
  qed
  have W: "(\<forall>d \<in> set (days c). oid d < nextOid c)
        \<longrightarrow> (\<forall>i < total_n. i < length (days c)
              \<longrightarrow> (oid (days c' ! i) = oid (days c ! i) \<longleftrightarrow> sameDay (days c ! i) (target i)))"
  proof (intro allI impI)
    fix i assume wf: "\<forall>d \<in> set (days c). oid d < nextOid c"
      and i: "i < total_n" and l: "i < length (days c)"
    have old: "oid (days c ! i) < nextOid c" using wf l by simp
    show "oid (days c' ! i) = oid (days c ! i) \<longleftrightarrow> sameDay (days c ! i) (target i)"
    proof (cases "sameDay (days c ! i) (target i)")
      case True
      with R i l show ?thesis by blast
    next
      case False
      with N i have "nextOid c \<le> oid (days c' ! i)" by blast
      with old False show ?thesis by simp
    qed
  qed
  show ?thesis using fl L S R N W by blast
qed



theorem resetDays_cells_witness:
  "length (days (resetDays exampleLib grownWeek)) = 10 \<and>
   oid (days (resetDays exampleLib grownWeek) ! 2) = oid (days grownWeek ! 2) \<and>
   nextOid grownWeek \<le> oid (days (resetDays exampleLib grownWeek) ! 8) \<and>
   oid (days (resetDays exampleLib movedWeek) ! 2) \<noteq> oid (days movedWeek ! 2)"
proof -
  have t1: "10 = max (minimumSize grownWeek)
      (span_days exampleLib (filled (resetDays exampleLib grownWeek)))"
    by code_simp
  have t2: "7 = max (minimumSize movedWeek)
      (span_days exampleLib (filled (resetDays exampleLib movedWeek)))"
    by code_simp
  have reuse: "2 < length (days grownWeek) \<and>
      sameDay (days grownWeek ! 2)
        (relativeDays (span_start (filled (resetDays exampleLib grownWeek))) (int 2))"
    by code_simp
  have fresh: "\<not> (8 < length (days grownWeek) \<and>
      sameDay (days grownWeek ! 8)
        (relativeDays (span_start (filled (resetDays exampleLib grownWeek))) (int 8)))"
    by code_simp
  have wf: "\<forall>d \<in> set (days movedWeek). oid d < nextOid movedWeek"
    by code_simp
  have moved: "2 < length (days movedWeek) \<and>
      \<not> sameDay (days movedWeek ! 2)
        (relativeDays (span_start (filled (resetDays exampleLib movedWeek))) (int 2))"
    by code_simp
  note g = resetDays_cells[OF refl t1 refl]
  note m = resetDays_cells[OF refl t2 refl]
  have a: "length (days (resetDays exampleLib grownWeek)) = 10"
    using g by (rule conjunct2[THEN conjunct1])
  have gR: "\<forall>i < 10. i < length (days grownWeek) \<and> sameDay (days grownWeek ! i)
          (relativeDays (span_start (filled (resetDays exampleLib grownWeek))) (int i))
        \<longrightarrow> days (resetDays exampleLib grownWeek) ! i
              = markInCalendar exampleLib (span grownWeek) (days grownWeek ! i) \<and>
            oid (days (resetDays exampleLib grownWeek) ! i) = oid (days grownWeek ! i)"
    using g by (rule conjunct2[THEN conjunct2, THEN conjunct2, THEN conjunct1])
  have b: "oid (days (resetDays exampleLib grownWeek) ! 2) = oid (days grownWeek ! 2)"
    by (rule gR[rule_format, OF _ reuse, THEN conjunct2]) simp
  have gN: "\<forall>i < 10. \<not> (i < length (days grownWeek) \<and> sameDay (days grownWeek ! i)
          (relativeDays (span_start (filled (resetDays exampleLib grownWeek))) (int i)))
        \<longrightarrow> nextOid grownWeek \<le> oid (days (resetDays exampleLib grownWeek) ! i) \<and>
            oid (days (resetDays exampleLib grownWeek) ! i) < nextOid (resetDays exampleLib grownWeek) \<and>
            asDay (days (resetDays exampleLib grownWeek) ! i)
              = relativeDays (span_start (filled (resetDays exampleLib grownWeek))) (int i)"
    using g by (rule conjunct2[THEN conjunct2, THEN conjunct2, THEN conjunct2, THEN conjunct1])
  have c: "nextOid grownWeek \<le> oid (days (resetDays exampleLib grownWeek) ! 8)"
    by (rule gN[rule_format, OF _ fresh, THEN conjunct1]) simp
  have mW: "(\<forall>d \<in> set (days movedWeek). oid d < nextOid movedWeek)
        \<longrightarrow> (\<forall>i < 7. i < length (days movedWeek)
              \<longrightarrow> (oid (days (resetDays exampleLib movedWeek) ! i) = oid (days movedWeek ! i)
                    \<longleftrightarrow> sameDay (days movedWeek ! i)
                      (relativeDays (span_start (filled (resetDays exampleLib movedWeek))) (int i))))"
    using m by (rule conjunct2[THEN conjunct2, THEN conjunct2, THEN conjunct2, THEN conjunct2])
  have d: "oid (days (resetDays exampleLib movedWeek) ! 2) \<noteq> oid (days movedWeek ! 2)"
    proof -
    have lt: "(2::nat) < 7" by simp
    from mW wf have "\<forall>i < 7. i < length (days movedWeek)
              \<longrightarrow> (oid (days (resetDays exampleLib movedWeek) ! i) = oid (days movedWeek ! i)
                    \<longleftrightarrow> sameDay (days movedWeek ! i)
                      (relativeDays (span_start (filled (resetDays exampleLib movedWeek))) (int i)))"
      by (rule mp)
    from this[rule_format, OF lt conjunct1[OF moved]] conjunct2[OF moved] show ?thesis by simp
  qed
  show ?thesis using a b c d by simp
qed


subsection \<open>The stages after resetDays\<close>

lemma updateCurrent_simps:
  "asDay (updateCurrent lib today d) = asDay d"
  "dayNumber (updateCurrent lib today d) = dayNumber d"
  "inCalendar (updateCurrent lib today d) = inCalendar d"
  by (simp_all add: updateCurrent_def asDay_def)

lemma selectionIterator_simps:
  "asDay (selectionIterator lib sel d) = asDay d"
  "dayNumber (selectionIterator lib sel d) = dayNumber d"
  "inCalendar (selectionIterator lib sel d) = inCalendar d"
  by (simp_all add: selectionIterator_def updateSelected_def clearSelected_def asDay_def
      split: option.splits)

lemma eventsIterator_simps:
  "asDay (eventsIterator lib c d) = asDay d"
  "dayNumber (eventsIterator lib c d) = dayNumber d"
  "inCalendar (eventsIterator lib c d) = inCalendar d"
  by (simp_all add: eventsIterator_def asDay_def)

lemma updateCurrent_idem:
  "updateCurrent lib today (updateCurrent lib today d) = updateCurrent lib today d"
  by (simp add: updateCurrent_def asDay_def sameDay_def)

lemma selectionIterator_idem:
  "selectionIterator lib sel (selectionIterator lib sel d) = selectionIterator lib sel d"
  by (simp add: selectionIterator_def updateSelected_def clearSelected_def asDay_def
      split: option.splits)

lemma eventsIterator_idem:
  "eventsIterator lib c (eventsIterator lib c d) = eventsIterator lib c d"
  by (simp add: eventsIterator_def asDay_def)

lemma updateCurrent_selectionIterator:
  "updateCurrent lib today (selectionIterator lib sel d)
     = selectionIterator lib sel (updateCurrent lib today d)"
  by (simp add: selectionIterator_def updateSelected_def clearSelected_def updateCurrent_def
      asDay_def sameDay_def split: option.splits)

lemma updateCurrent_eventsIterator:
  "updateCurrent lib today (eventsIterator lib c d)
     = eventsIterator lib c (updateCurrent lib today d)"
  by (simp add: eventsIterator_def updateCurrent_def asDay_def sameDay_def)

lemma selectionIterator_eventsIterator:
  "selectionIterator lib sel (eventsIterator lib c d)
     = eventsIterator lib c (selectionIterator lib sel d)"
  by (simp add: selectionIterator_def updateSelected_def clearSelected_def eventsIterator_def
      asDay_def split: option.splits)

lemma eventsIterator_cong:
  "schedules c = schedules c' \<Longrightarrow> listTimes c = listTimes c' \<Longrightarrow>
   repeatCovers c = repeatCovers c' \<Longrightarrow> eventsOutside c = eventsOutside c' \<Longrightarrow>
   eventsIterator lib c d = eventsIterator lib c' d"
  by (simp add: eventsIterator_def eventsForDay_def)

lemma pipelineCell_fix:
  "updateCurrent lib today (pipelineCell lib today c d) = pipelineCell lib today c d"
  "selectionIterator lib (selection c) (pipelineCell lib today c d) = pipelineCell lib today c d"
  "eventsIterator lib c (pipelineCell lib today c d) = pipelineCell lib today c d"
  unfolding pipelineCell_def
  by (simp_all add: updateCurrent_eventsIterator updateCurrent_selectionIterator
      updateCurrent_idem selectionIterator_eventsIterator selectionIterator_idem
      eventsIterator_idem)

lemma pipelineCell_simps:
  "asDay (pipelineCell lib today c d) = asDay d"
  "dayNumber (pipelineCell lib today c d) = dayNumber d"
  "inCalendar (pipelineCell lib today c d) = inCalendar d"
  unfolding pipelineCell_def
  by (simp_all add: eventsIterator_simps selectionIterator_simps updateCurrent_simps)

lemma refresh_as_map:
  "refresh lib today c =
     (resetDays lib (c\<lparr>length_c := span_days lib (span c)\<rparr>))
       \<lparr>days := map (pipelineCell lib today c)
                  (days (resetDays lib (c\<lparr>length_c := span_days lib (span c)\<rparr>)))\<rparr>"
proof -
  define cR where "cR = resetDays lib (c\<lparr>length_c := span_days lib (span c)\<rparr>)"
  have k: "selection cR = selection c" "schedules cR = schedules c" "listTimes cR = listTimes c"
    "repeatCovers cR = repeatCovers c" "eventsOutside cR = eventsOutside c"
    unfolding cR_def resetDays_def resetFilled_def Let_def by (simp_all split: prod.splits)
  have e: "eventsIterator lib (cR\<lparr>days := ds\<rparr>) = eventsIterator lib c" for ds
    by (rule ext, rule eventsIterator_cong) (simp_all add: k)
  show ?thesis
    unfolding refresh_def cR_def[symmetric]
    by (simp add: refreshEvents_def refreshSelection_def refreshCurrent_def cal_iterateDays_def
        k e pipelineCell_def comp_def)
qed


lemma markInCalendar_fix:
  "inCalendar d = span_contains lib sp (asDay d) \<Longrightarrow> markInCalendar lib sp d = d"
  by (simp add: markInCalendar_def)

lemma resetDays_keeps:
  "span (resetDays lib c) = span c" "fill (resetDays lib c) = fill c"
  "minimumSize (resetDays lib c) = minimumSize c" "length_c (resetDays lib c) = length_c c"
  "selection (resetDays lib c) = selection c" "schedules (resetDays lib c) = schedules c"
  "listTimes (resetDays lib c) = listTimes c" "repeatCovers (resetDays lib c) = repeatCovers c"
  "eventsOutside (resetDays lib c) = eventsOutside c"
  "filled (resetDays lib c) = filled (resetFilled lib c)"
  unfolding resetDays_def resetFilled_def Let_def by (simp_all split: prod.splits)

lemma resetDays_shape:
  assumes t0: "t0 = max (minimumSize c) (span_days lib (filled (resetFilled lib c)))"
  shows "length (days (resetDays lib c)) = t0 \<and>
     (\<forall>i < t0. sameDay (days (resetDays lib c) ! i)
                  (relativeDays (span_start (filled (resetFilled lib c))) (int i)) \<and>
               inCalendar (days (resetDays lib c) ! i)
                 = span_contains lib (span c) (asDay (days (resetDays lib c) ! i)))"
proof -
  obtain rs m where loop: "resetDays_loop lib (span c) t0 0 (span_start (filled (resetFilled lib c)))
       (days c, nextOid c) = (rs, m)"
    and out: "resetDays lib c =
       (resetFilled lib c)\<lparr>days := (if length rs > t0 then take t0 rs else rs), nextOid := m\<rparr>"
    using resetDays_outcome[OF t0] by blast
  have ds: "days (resetDays lib c) = (if length rs > t0 then take t0 rs else rs)"
    unfolding out by simp
  note P = resetDays_loop_props[OF le0 loop]
  have len: "length rs = max (length (days c)) t0" using P by blast
  have cell: "cellFor lib (span c) (days c) (nextOid c) m i
      (relativeDays (span_start (filled (resetFilled lib c))) (int i)) (rs ! i)" if "i < t0" for i
  proof -
    from P that have "cellFor lib (span c) (days c) (nextOid c) m i
      (relativeDays (span_start (filled (resetFilled lib c))) (int (i - 0))) (rs ! i)" by blast
    then show ?thesis by simp
  qed
  have nth: "days (resetDays lib c) ! i = rs ! i" if "i < t0" for i
    unfolding ds using that by simp
  have L: "length (days (resetDays lib c)) = t0"
    unfolding ds using len by auto
  have S: "sameDay (days (resetDays lib c) ! i)
        (relativeDays (span_start (filled (resetFilled lib c))) (int i)) \<and>
      inCalendar (days (resetDays lib c) ! i)
        = span_contains lib (span c) (asDay (days (resetDays lib c) ! i))" if i: "i < t0" for i
    using cell[OF i] unfolding nth[OF i] cellFor_def
    by (auto simp: sameDay_simps markInCalendar_simps split: if_splits)
  show ?thesis using L S by blast
qed

lemma resetFilled_idem:
  "filled c = filled (resetFilled lib c) \<Longrightarrow> resetFilled lib c = c"
  by (simp add: resetFilled_def)

lemma resetFilled_cong:
  "span c = span c' \<Longrightarrow> fill c = fill c' \<Longrightarrow> filled (resetFilled lib c) = filled (resetFilled lib c')"
  by (simp add: resetFilled_def)

lemma resetDays_fixpoint:
  assumes f: "filled c = filled (resetFilled lib c)"
    and t0: "t0 = max (minimumSize c) (span_days lib (filled c))"
    and len: "length (days c) = t0"
    and cells: "\<forall>i < t0. sameDay (days c ! i) (relativeDays (span_start (filled c)) (int i)) \<and>
               inCalendar (days c ! i) = span_contains lib (span c) (asDay (days c ! i))"
  shows "resetDays lib c = c"
proof -
  have rf: "resetFilled lib c = c" using f by (rule resetFilled_idem)
  have t0': "t0 = max (minimumSize c) (span_days lib (filled (resetFilled lib c)))"
    unfolding rf by (rule t0)
  obtain rs m where loop: "resetDays_loop lib (span c) t0 0 (span_start (filled (resetFilled lib c)))
       (days c, nextOid c) = (rs, m)"
    and out: "resetDays lib c =
       (resetFilled lib c)\<lparr>days := (if length rs > t0 then take t0 rs else rs), nextOid := m\<rparr>"
    using resetDays_outcome[OF t0'] by blast
  have pre: "\<forall>j. 0 \<le> j \<and> j < t0 \<longrightarrow>
      sameDay (days c ! j) (relativeDays (span_start (filled c)) (int (j - 0))) \<and>
      markInCalendar lib (span c) (days c ! j) = days c ! j"
    using cells by (auto intro: markInCalendar_fix)
  have "resetDays_loop lib (span c) t0 0 (span_start (filled c)) (days c, nextOid c)
      = (days c, nextOid c)"
    using len pre by (rule resetDays_loop_fixpoint)
  with loop have "rs = days c" "m = nextOid c" unfolding rf by simp_all
  then show ?thesis unfolding out rf using len by simp
qed

subsection \<open>C6: refresh is idempotent\<close>

text \<open>
  Claim C6. Running \<^verbatim>\<open>refresh\<close> a second time with the same reference date, nothing
  having changed in between, returns the calendar as the first run left it: the cell
  sequence is identical by value, every cell is the same object as after the first run,
  and no cell is allocated.
\<close>

theorem refresh_idempotent:
  "refresh lib today (refresh lib today c) = refresh lib today c \<and>
   map oid (days (refresh lib today (refresh lib today c))) = map oid (days (refresh lib today c)) \<and>
   nextOid (refresh lib today (refresh lib today c)) = nextOid (refresh lib today c)"
proof -
  define c0 where "c0 = c\<lparr>length_c := span_days lib (span c)\<rparr>"
  define cR where "cR = resetDays lib c0"
  define c1 where "c1 = refresh lib today c"
  define t0 where "t0 = max (minimumSize c0) (span_days lib (filled (resetFilled lib c0)))"
  have c1: "c1 = cR\<lparr>days := map (pipelineCell lib today c) (days cR)\<rparr>"
    unfolding c1_def cR_def c0_def by (rule refresh_as_map)
  have k0: "span c0 = span c" "fill c0 = fill c" "minimumSize c0 = minimumSize c"
    "length_c c0 = span_days lib (span c)" "selection c0 = selection c"
    "schedules c0 = schedules c" "listTimes c0 = listTimes c" "repeatCovers c0 = repeatCovers c"
    "eventsOutside c0 = eventsOutside c"
    unfolding c0_def by simp_all
  have k1: "span c1 = span c" "fill c1 = fill c" "minimumSize c1 = minimumSize c"
    "length_c c1 = span_days lib (span c)" "selection c1 = selection c"
    "schedules c1 = schedules c" "listTimes c1 = listTimes c" "repeatCovers c1 = repeatCovers c"
    "eventsOutside c1 = eventsOutside c"
    "filled c1 = filled (resetFilled lib c0)"
    unfolding c1 cR_def by (simp_all add: resetDays_keeps k0)
  have step1: "c1\<lparr>length_c := span_days lib (span c1)\<rparr> = c1"
    using k1(1,4) by simp
  note shape = resetDays_shape[OF t0_def, folded cR_def]
  have f1: "filled c1 = filled (resetFilled lib c1)"
    unfolding k1(10) by (rule resetFilled_cong) (simp_all add: k0 k1)
  have t1: "t0 = max (minimumSize c1) (span_days lib (filled c1))"
    unfolding t0_def k1 k0 by simp
  have d1: "days c1 = map (pipelineCell lib today c) (days cR)" unfolding c1 by simp
  have len1: "length (days c1) = t0" unfolding d1 using shape by simp
  have cells1: "\<forall>i < t0. sameDay (days c1 ! i) (relativeDays (span_start (filled c1)) (int i)) \<and>
               inCalendar (days c1 ! i) = span_contains lib (span c1) (asDay (days c1 ! i))"
  proof (intro allI impI)
    fix i assume i: "i < t0"
    then have il: "i < length (days cR)" using shape by simp
    from shape i have s: "sameDay (days cR ! i)
          (relativeDays (span_start (filled (resetFilled lib c0))) (int i))"
      and m: "inCalendar (days cR ! i) = span_contains lib (span c0) (asDay (days cR ! i))"
      by blast+
    show "sameDay (days c1 ! i) (relativeDays (span_start (filled c1)) (int i)) \<and>
               inCalendar (days c1 ! i) = span_contains lib (span c1) (asDay (days c1 ! i))"
      unfolding d1 k1 using s m il
      by (simp add: pipelineCell_simps sameDay_def k0)
  qed
  have step2: "resetDays lib c1 = c1"
    using f1 t1 len1 cells1 by (rule resetDays_fixpoint)
  have pc: "pipelineCell lib today c1 = pipelineCell lib today c"
    by (rule ext) (simp add: pipelineCell_def k1 eventsIterator_cong[of c1 c])
  have step3: "map (pipelineCell lib today c1) (days c1) = days c1"
    unfolding pc d1 by (simp add: pipelineCell_def[symmetric] pipelineCell_fix
        pipelineCell_def[of lib today c "pipelineCell lib today c _"])
  have "refresh lib today c1 = c1"
    unfolding refresh_as_map[of lib today c1] step1 step2 step3 by simp
  then show ?thesis unfolding c1_def by simp
qed

theorem refresh_idempotent_witness:
  "map oid (days (refresh exampleLib (mkDay 5) (refresh exampleLib (mkDay 5) exampleCalendar)))
     = [0, 1, 2, 3, 4, 5, 6]"
proof -
  have "map oid (days (refresh exampleLib (mkDay 5) exampleCalendar)) = [0, 1, 2, 3, 4, 5, 6]"
    by code_simp
  then show ?thesis
    using refresh_idempotent[of exampleLib "mkDay 5" exampleCalendar] by simp
qed


end
